theory Spec2Isabelle
  imports Main "HOL-Library.Word" "HOL-Library.Signed_Division"
begin

unbundle bit_operations_syntax

section \<open>The split-flap display driver: data model\<close>

text \<open>
  The driver is one Arduino sketch for the AVR boards: plain \<open>char\<close> is a signed
  byte, \<open>int\<close> has 16 bits and \<open>long int\<close> has 32 bits. Bytes are modelled as
  \<open>8 word\<close> and read as two's complement (\<open>sint\<close>) wherever the sketch promotes a
  \<open>char\<close> to \<open>int\<close>. The two clock variables \<open>acc\<close> and \<open>acc_t\<close> are \<open>int\<close>s
  that the sketch decrements, \<open>acc_t\<close> whenever it is not 0: they are \<open>16 word\<close>,
  compared as signed values (\<open><s\<close>), and their decrement wraps around at the
  smallest value as the 16-bit subtraction of the machine does. In the states of a
  run they stay within 0 to 15 (lemmas \<open>clock_ok_move_rotors\<close> and
  \<open>clock_ok_ticks\<close>). The step counters (\<open>long int\<close>) and the temporaries of the
  arithmetic are modelled as integers: the sketch decrements a step counter only
  while it is above \<open>- BRAKE_STEPS\<close>, and the step plan of a load stays below
  \<open>2 ^ 15\<close> in size (lemma \<open>raw_step_count_range\<close>), so none of these computations
  can leave the range of its machine type. Division and remainder are the truncating
  ones of C (\<open>sdiv\<close>, \<open>smod\<close>).
\<close>

abbreviation INITIAL_ACCEL :: "16 word" where "INITIAL_ACCEL \<equiv> 15"
abbreviation BRAKE_STEPS :: int where "BRAKE_STEPS \<equiv> 50"
abbreviation GEAR_RATIO :: int where "GEAR_RATIO \<equiv> 64"
abbreviation NUM_FLAPS :: int where "NUM_FLAPS \<equiv> 32"
abbreviation NUM_UNITS :: nat where "NUM_UNITS \<equiv> 10"

text \<open>
  The global variables of the sketch. \<open>pins\<close> holds the levels last written to
  \<open>pin_1\<close> .. \<open>pin_4\<close> by \<open>digitalWrite\<close>, which drives a pin high exactly when
  its value argument is nonzero. The global \<open>ff\<close> is only the counter of the
  stepping loop and is the first argument of \<open>step_units\<close> below.
\<close>

record state =
  rotors :: "8 word list"
  steps :: "int list"
  acc :: "16 word"
  acc_t :: "16 word"
  last_display :: "8 word list"
  rolling :: bool
  message :: "8 word list"
  pins :: "bool \<times> bool \<times> bool \<times> bool"

text \<open>The array sizes of the declarations.\<close>

definition wf_state :: "state \<Rightarrow> bool" where
  "wf_state s \<longleftrightarrow>
     length (rotors s) = NUM_UNITS div 2 \<and> length (steps s) = NUM_UNITS \<and>
     length (last_display s) = NUM_UNITS \<and> length (message s) = NUM_UNITS + 1"

text \<open>
  The globals after their initialisers and \<open>setup\<close>, which is a command name of
  Isabelle, hence \<open>setup_state\<close>. The pins are low until the first write.
\<close>

definition setup_state :: state where
  "setup_state = \<lparr> rotors = replicate (NUM_UNITS div 2) 0x11,
             steps = replicate NUM_UNITS 0,
             acc = 0, acc_t = 0,
             last_display = replicate NUM_UNITS (word_of_int (NUM_FLAPS - 1)),
             rolling = False,
             message = replicate (NUM_UNITS + 1) 0,
             pins = (False, False, False, False) \<rparr>"

section \<open>Output\<close>

text \<open>
  \<open>rotors_out\<close> with its local \<open>rotor_num\<close> as an argument; the sketch fixes it
  to 0 (\<open>rotors_out\<close> below), the shift register output for the other units not
  being written yet.
\<close>

definition rotors_out_unit :: "nat \<Rightarrow> state \<Rightarrow> state" where
  "rotors_out_unit rotor_num s =
     (if - BRAKE_STEPS < steps s ! rotor_num then
        let rotor = rotors s ! (rotor_num div 2);
            rotor = (if rotor_num mod 2 \<noteq> 0 then push_bit 4 rotor else rotor)
        in s\<lparr>pins := (rotor AND 0x80 \<noteq> 0, rotor AND 0x40 \<noteq> 0,
                     rotor AND 0x20 \<noteq> 0, rotor AND 0x10 \<noteq> 0)\<rparr>
      else s\<lparr>pins := (False, False, False, False)\<rparr>)"

definition rotors_out :: "state \<Rightarrow> state" where
  "rotors_out s = rotors_out_unit 0 s"

section \<open>One step forward\<close>

text \<open>
  \<open>step_fwd\<close> works in \<open>int\<close>: the byte is sign-extended (\<open>sint\<close>), and
  \<open>>> 4\<close> on a negative \<open>int\<close> is the arithmetic shift of avr-gcc, which is
  \<open>drop_bit\<close> on integers. The value stored is cut back to a byte
  (\<open>word_of_int\<close>). Unit numbers are natural numbers: the callers pass
  \<open>0 ..< NUM_UNITS\<close> only.
\<close>

definition step_fwd :: "nat \<Rightarrow> state \<Rightarrow> state" where
  "step_fwd rotor_num s =
     (let rotor0 = sint (rotors s ! (rotor_num div 2));
          rotor = (if rotor_num mod 2 = 0 then drop_bit 4 rotor0 else rotor0 AND 0x0F);
          rotor = (if rotor AND 0x08 \<noteq> 0 then 1 else push_bit 1 rotor)
      in if rotor_num mod 2 = 0
         then s\<lparr>rotors := (rotors s)[rotor_num div 2 :=
                  word_of_int (push_bit 4 rotor OR (0x0F AND rotor0))]\<rparr>
         else s\<lparr>rotors := (rotors s)[rotor_num div 2 :=
                  word_of_int (rotor OR (0xF0 AND rotor0))]\<rparr>)"

section \<open>Loading a message\<close>

text \<open>The flap of a message byte (lines 187 to 190); the result is a \<open>char\<close>.\<close>

definition compute_target :: "8 word \<Rightarrow> 8 word" where
  "compute_target c =
     (if c = 0 \<or> c = 0x20 then word_of_int (NUM_FLAPS - 1) else c - 0x41)"

text \<open>Line 191, in \<open>int\<close> arithmetic, and line 192 with its ratio.\<close>

definition raw_step_count :: "8 word \<Rightarrow> 8 word \<Rightarrow> int" where
  "raw_step_count chr lst = ((sint chr - sint lst + NUM_FLAPS) smod NUM_FLAPS) * GEAR_RATIO"

definition compensate :: "int \<Rightarrow> int \<Rightarrow> int \<Rightarrow> int" where
  "compensate num den n = n * num sdiv den"

definition step_plan :: "8 word \<Rightarrow> 8 word \<Rightarrow> int" where
  "step_plan chr lst = compensate 319 320 (raw_step_count chr lst)"

text \<open>The loop of lines 186 to 199; \<open>msg_p\<close> is the index the pointer has reached.\<close>

function load_units :: "nat \<Rightarrow> nat \<Rightarrow> state \<Rightarrow> state" where
  "load_units rotor_num msg_p s =
     (if rotor_num < NUM_UNITS then
        let c = message s ! msg_p;
            chr = compute_target c;
            s1 = s\<lparr>steps := (steps s)[rotor_num := step_plan chr (last_display s ! rotor_num)],
                   last_display := (last_display s)[rotor_num := chr]\<rparr>
        in if c \<noteq> 0
           then load_units (rotor_num + 1) (msg_p + 1) (s1\<lparr>message := (message s1)[msg_p := 0]\<rparr>)
           else load_units (rotor_num + 1) msg_p s1
      else s)"
  by pat_completeness auto
termination
  by (relation "measure (\<lambda>(rotor_num, msg_p, s). NUM_UNITS - rotor_num)") auto

section \<open>The tick\<close>

text \<open>The loop of lines 152 to 160.\<close>

function step_units :: "nat \<Rightarrow> state \<Rightarrow> state" where
  "step_units ff s =
     (if ff < NUM_UNITS then
        step_units (ff + 1)
          (if - BRAKE_STEPS < steps s ! ff then
             let s1 = (if 0 < steps s ! ff then step_fwd ff s else s)
             in s1\<lparr>steps := (steps s1)[ff := steps s1 ! ff - 1], rolling := True\<rparr>
           else s)
      else s)"
  by pat_completeness auto
termination
  by (relation "measure (\<lambda>(ff, s). NUM_UNITS - ff)") auto

definition move_rotors :: "state \<Rightarrow> state" where
  "move_rotors s0 =
     (let s1 = s0\<lparr>rolling := False\<rparr>;
          s2 = (if acc_t s1 = 0 then step_units 0 s1 else s1);
          s3 = rotors_out s2;
          s4 = (if acc_t s3 = 0
                then (if 0 <s acc s3 then s3\<lparr>acc := acc s3 - 1, acc_t := acc s3 - 1\<rparr> else s3)
                else s3\<lparr>acc_t := acc_t s3 - 1, rolling := True\<rparr>)
      in if \<not> rolling s4 then
           let s5 = s4\<lparr>acc := INITIAL_ACCEL\<rparr>
           in if message s5 ! 0 = 0 then s5 else load_units 0 0 s5
         else s4)"

text \<open>
  The caller: \<open>ticks n\<close> is \<open>n\<close> calls of \<open>move_rotors\<close> with no write to the
  message buffer between them, \<open>stepping_ticks n s\<close> counts those of them that are
  not pacing delays (\<open>acc_t\<close> is 0 on entry), and \<open>write_message\<close> is the
  \<open>strncpy (message, src, NUM_UNITS)\<close> of \<open>loop\<close>: the bytes of \<open>src\<close> before its
  first 0, at most \<open>NUM_UNITS\<close> of them, padded with 0 up to \<open>NUM_UNITS\<close>.
\<close>

fun ticks :: "nat \<Rightarrow> state \<Rightarrow> state" where
  "ticks 0 s = s"
| "ticks (Suc n) s = ticks n (move_rotors s)"

fun stepping_ticks :: "nat \<Rightarrow> state \<Rightarrow> nat" where
  "stepping_ticks 0 s = 0"
| "stepping_ticks (Suc n) s = (if acc_t s = 0 then 1 else 0) + stepping_ticks n (move_rotors s)"

definition write_message :: "8 word list \<Rightarrow> state \<Rightarrow> state" where
  "write_message src s =
     (let body = take NUM_UNITS (takeWhile (\<lambda>c. c \<noteq> 0) src)
      in s\<lparr>message := body @ replicate (NUM_UNITS - length body) 0 @ drop NUM_UNITS (message s)\<rparr>)"

section \<open>Notions of the specification\<close>

text \<open>
  The phase state of a unit is its nibble of the packed array: the high nibble of
  byte \<open>rotor_num div 2\<close> for an even unit, the low nibble for an odd one, as
  \<open>step_fwd\<close> and \<open>rotors_out\<close> read it. \<open>next_phase\<close> is lines 132 to 135 on
  a nibble.
\<close>

definition phase_of :: "nat \<Rightarrow> 8 word list \<Rightarrow> 8 word" where
  "phase_of rotor_num rs =
     (if rotor_num mod 2 = 0 then drop_bit 4 (rs ! (rotor_num div 2))
      else rs ! (rotor_num div 2) AND 0x0F)"

definition next_phase :: "8 word \<Rightarrow> 8 word" where
  "next_phase x = (if x AND 0x08 \<noteq> 0 then 1 else push_bit 1 x)"

definition one_hot_nibble :: "8 word \<Rightarrow> bool" where
  "one_hot_nibble x \<longleftrightarrow> x = 1 \<or> x = 2 \<or> x = 4 \<or> x = 8"

definition one_hot_byte :: "8 word \<Rightarrow> bool" where
  "one_hot_byte b \<longleftrightarrow> one_hot_nibble (drop_bit 4 b) \<and> one_hot_nibble (b AND 0x0F)"

definition one_hot_rotors :: "state \<Rightarrow> bool" where
  "one_hot_rotors s \<longleftrightarrow> (\<forall>b \<in> set (rotors s). one_hot_byte b)"

text \<open>
  The levels of \<open>pin_1\<close> .. \<open>pin_4\<close> that show a phase nibble (bits 3 down to 0),
  and whether any of the four coils is driven.
\<close>

definition excitation :: "8 word \<Rightarrow> bool \<times> bool \<times> bool \<times> bool" where
  "excitation x = (x AND 8 \<noteq> 0, x AND 4 \<noteq> 0, x AND 2 \<noteq> 0, x AND 1 \<noteq> 0)"

fun energized :: "bool \<times> bool \<times> bool \<times> bool \<Rightarrow> bool" where
  "energized (p1, p2, p3, p4) \<longleftrightarrow> p1 \<or> p2 \<or> p3 \<or> p4"

text \<open>
  For the proofs: what \<open>step_fwd\<close> does to the one byte it rewrites, and one
  iteration of the stepping loop.
\<close>

definition step_byte :: "bool \<Rightarrow> 8 word \<Rightarrow> 8 word" where
  "step_byte ev b =
     (let rotor0 = sint b;
          rotor = (if ev then drop_bit 4 rotor0 else rotor0 AND 0x0F);
          rotor = (if rotor AND 0x08 \<noteq> 0 then 1 else push_bit 1 rotor)
      in if ev then word_of_int (push_bit 4 rotor OR (0x0F AND rotor0))
         else word_of_int (rotor OR (0xF0 AND rotor0)))"

definition step_unit :: "nat \<Rightarrow> state \<Rightarrow> state" where
  "step_unit ff s =
     (if - BRAKE_STEPS < steps s ! ff then
        let s1 = (if 0 < steps s ! ff then step_fwd ff s else s)
        in s1\<lparr>steps := (steps s1)[ff := steps s1 ! ff - 1], rolling := True\<rparr>
      else s)"

text \<open>
  \<open>msg_len p s\<close> is the number of message bytes from index \<open>p\<close> up to the first
  0 (or the end of the buffer): \<open>msg_len 0 s\<close> is the length of the pending message.
  \<open>any_active s\<close> says that some unit has its step counter above \<open>- BRAKE_STEPS\<close>.
  \<open>loads s\<close> says that a tick entered in \<open>s\<close> reaches the loading loop: no delay
  is pending, no unit is active, and a message is pending.
\<close>

definition msg_len :: "nat \<Rightarrow> state \<Rightarrow> nat" where
  "msg_len p s = length (takeWhile (\<lambda>c. c \<noteq> 0) (drop p (message s)))"

definition any_active :: "state \<Rightarrow> bool" where
  "any_active s \<longleftrightarrow> (\<exists>x \<in> set (steps s). - BRAKE_STEPS < x)"

definition loads :: "state \<Rightarrow> bool" where
  "loads s \<longleftrightarrow> acc_t s = 0 \<and> \<not> any_active s \<and> message s ! 0 \<noteq> 0"

text \<open>
  \<open>no_load n s\<close> says that none of the next \<open>n\<close> ticks from \<open>s\<close> loads a
  message. \<open>clock_ok s\<close> is the range of the two clock variables in the states of
  a run.
\<close>

fun no_load :: "nat \<Rightarrow> state \<Rightarrow> bool" where
  "no_load 0 s \<longleftrightarrow> True"
| "no_load (Suc n) s \<longleftrightarrow> \<not> loads s \<and> no_load n (move_rotors s)"

definition clock_ok :: "state \<Rightarrow> bool" where
  "clock_ok s \<longleftrightarrow> 0 \<le>s acc_t s \<and> acc_t s \<le>s 14 \<and> 0 \<le>s acc s \<and> acc s \<le>s INITIAL_ACCEL"

text \<open>
  For the proofs: one iteration of the loading loop, the state of a tick after its
  stepping loop and its output (line 163), and the state in which the loading loop
  starts.
\<close>

definition load_unit :: "nat \<Rightarrow> nat \<Rightarrow> state \<Rightarrow> state" where
  "load_unit rotor_num msg_p s =
     (let chr = compute_target (message s ! msg_p)
      in s\<lparr>steps := (steps s)[rotor_num := step_plan chr (last_display s ! rotor_num)],
            last_display := (last_display s)[rotor_num := chr],
            message := (message s)[msg_p := 0]\<rparr>)"

definition stepped :: "state \<Rightarrow> state" where
  "stepped s = rotors_out (if acc_t s = 0 then step_units 0 (s\<lparr>rolling := False\<rparr>)
                           else s\<lparr>rolling := False\<rparr>)"

definition preload :: "state \<Rightarrow> state" where
  "preload s =
     (if 0 <s acc s then (stepped s)\<lparr>acc := acc s - 1, acc_t := acc s - 1\<rparr> else stepped s)
       \<lparr>acc := INITIAL_ACCEL\<rparr>"

text \<open>
  The flap that the loading loop gives unit \<open>i\<close>: that of the \<open>i\<close>-th message byte,
  or the space flap once the message is used up
  (lemma \<open>load_last_display_nth\<close>).
\<close>

definition target_of :: "state \<Rightarrow> nat \<Rightarrow> 8 word" where
  "target_of s i =
     (if i < msg_len 0 s then compute_target (message s ! i) else word_of_int (NUM_FLAPS - 1))"

section \<open>Some states of the running display\<close>

text \<open>
  \<open>parked_unit0\<close> is the display 170 ticks after the text \<open>" B"\<close> was written to
  the idle display (lemma \<open>parked_unit0_reached\<close>): unit 0 has finished its brake
  hold while unit 1 is still turning. \<open>last_step\<close> is the display 246 ticks
  after the text \<open>"B"\<close> was written to the idle display (lemma
  \<open>last_step_reached\<close>): unit 0 has one step left to go. \<open>idle_hello\<close> and
  \<open>idle_space\<close> are the idle display, 51 ticks after power-on, with the text
  \<open>"HELLO "\<close> and the text \<open>" "\<close> written to the message buffer; in the second
  every unit already shows the space.
\<close>

definition parked_unit0 :: state where
  "parked_unit0 = \<lparr> rotors = [0x14, 0x11, 0x11, 0x11, 0x11],
       steps = [-50, 77, -50, -50, -50, -50, -50, -50, -50, -50],
       acc = 0, acc_t = 0,
       last_display = [31, 1, 31, 31, 31, 31, 31, 31, 31, 31],
       rolling = True,
       message = [0, 0, 0, 0, 0, 0, 0, 0, 0, 0, 0],
       pins = (False, False, False, False) \<rparr>"

definition idle_hello :: state where
  "idle_hello = write_message [0x48, 0x45, 0x4C, 0x4C, 0x4F, 0x20, 0] (ticks 51 setup_state)"

definition idle_space :: state where
  "idle_space = write_message [0x20, 0] (ticks 51 setup_state)"

definition last_step :: state where
  "last_step = \<lparr> rotors = [0x41, 0x11, 0x11, 0x11, 0x11],
       steps = [1, -50, -50, -50, -50, -50, -50, -50, -50, -50],
       acc = 0, acc_t = 0,
       last_display = [1, 31, 31, 31, 31, 31, 31, 31, 31, 31],
       rolling = True,
       message = [0, 0, 0, 0, 0, 0, 0, 0, 0, 0, 0],
       pins = (False, True, False, False) \<rparr>"

text \<open>
  \<open>unit1_last_step\<close> is the display 246 ticks after the text \<open>" B"\<close> was
  written to the idle display (lemma \<open>unit1_last_step_reached\<close>): unit 0 is
  parked and unit 1 has one step left to go. \<open>hold_pending\<close> is the display after
  the tick that loaded \<open>" B"\<close>, with the next text \<open>"HA"\<close> already written to
  the message buffer, as \<open>loop\<close> does after every load: unit 0 starts its brake hold
  at 0 while unit 1 has 127 steps to go.
\<close>

definition unit1_last_step :: state where
  "unit1_last_step = \<lparr> rotors = [0x14, 0x11, 0x11, 0x11, 0x11],
       steps = [-50, 1, -50, -50, -50, -50, -50, -50, -50, -50],
       acc = 0, acc_t = 0,
       last_display = [31, 1, 31, 31, 31, 31, 31, 31, 31, 31],
       rolling = True,
       message = [0, 0, 0, 0, 0, 0, 0, 0, 0, 0, 0],
       pins = (False, False, False, False) \<rparr>"

definition hold_pending :: state where
  "hold_pending = write_message [0x48, 0x41, 0]
     (move_rotors (write_message [0x20, 0x42, 0] (ticks 51 setup_state)))"

section \<open>Bytes with one bit per nibble\<close>

lemma byte_split: "(b :: 8 word) = push_bit 4 (drop_bit 4 b) + (b AND 0x0F)"
proof -
  have "take_bit 4 b = b AND mask 4" by (rule take_bit_eq_mask)
  then have "take_bit 4 b = b AND 0x0F" by (simp add: mask_eq_exp_minus_1)
  then show ?thesis using bits_ident [of 4 b] by simp
qed

lemma one_hot_byte_cases:
  assumes "one_hot_byte b"
  shows "b \<in> {0x11, 0x12, 0x14, 0x18, 0x21, 0x22, 0x24, 0x28,
              0x41, 0x42, 0x44, 0x48, 0x81, 0x82, 0x84, 0x88}"
proof -
  from assms have h: "drop_bit 4 b \<in> {1, 2, 4, 8}" and l: "b AND 0x0F \<in> {1, 2, 4, 8}"
    by (simp_all add: one_hot_byte_def one_hot_nibble_def)
  have "b = push_bit 4 (drop_bit 4 b) + (b AND 0x0F)" by (rule byte_split)
  with h l show ?thesis
    by (elim insertE emptyE) (simp_all only:, simp_all)
qed

lemma step_fwd_byte:
  "step_fwd rotor_num s =
     s\<lparr>rotors := (rotors s)[rotor_num div 2 :=
          step_byte (rotor_num mod 2 = 0) (rotors s ! (rotor_num div 2))]\<rparr>"
  by (simp add: step_fwd_def step_byte_def Let_def)

lemma step_byte_even:
  assumes "one_hot_byte b"
  shows "drop_bit 4 (step_byte True b) = next_phase (drop_bit 4 b)"
    and "step_byte True b AND 0x0F = b AND 0x0F"
    and "one_hot_byte (step_byte True b)"
  using one_hot_byte_cases [OF assms]
  by (auto simp: step_byte_def next_phase_def one_hot_byte_def one_hot_nibble_def)

lemma step_byte_odd:
  assumes "one_hot_byte b"
  shows "step_byte False b AND 0x0F = next_phase (b AND 0x0F)"
    and "drop_bit 4 (step_byte False b) = drop_bit 4 b"
    and "one_hot_byte (step_byte False b)"
  using one_hot_byte_cases [OF assms]
  by (auto simp: step_byte_def next_phase_def one_hot_byte_def one_hot_nibble_def)

lemma step_byte_four:
  assumes "one_hot_byte b"
  shows "step_byte ev (step_byte ev (step_byte ev (step_byte ev b))) = b"
  using one_hot_byte_cases [OF assms]
  by (cases ev) (auto simp: step_byte_def)

lemma next_phase_distinct:
  assumes "one_hot_nibble x"
  shows "distinct [x, next_phase x, next_phase (next_phase x),
                   next_phase (next_phase (next_phase x))]"
    and "next_phase (next_phase (next_phase (next_phase x))) = x"
  using assms by (auto simp: one_hot_nibble_def next_phase_def)

lemma one_hot_energized:
  "one_hot_nibble x \<Longrightarrow> energized (excitation x)"
  by (auto simp: one_hot_nibble_def excitation_def)

lemma excitation_high_nibble:
  assumes "one_hot_byte b"
  shows "(b AND 0x80 \<noteq> 0, b AND 0x40 \<noteq> 0, b AND 0x20 \<noteq> 0, b AND 0x10 \<noteq> 0)
           = excitation (drop_bit 4 b)"
  using one_hot_byte_cases [OF assms] by (auto simp: excitation_def)

lemma excitation_low_nibble:
  assumes "one_hot_byte b"
  shows "(push_bit 4 b AND 0x80 \<noteq> 0, push_bit 4 b AND 0x40 \<noteq> 0,
          push_bit 4 b AND 0x20 \<noteq> 0, push_bit 4 b AND 0x10 \<noteq> 0)
           = excitation (b AND 0x0F)"
  using one_hot_byte_cases [OF assms] by (auto simp: excitation_def)

section \<open>Characters and step counts\<close>

lemma small_char_sint:
  assumes "(c :: 8 word) < 32"
  shows "0 \<le> sint c \<and> sint c < 32"
proof -
  from assms have u: "uint c < 32" by (simp add: word_less_alt)
  have "sint c = signed_take_bit 7 (uint c)" by (simp add: sint_uint)
  also have "\<dots> = uint c"
  proof (rule signed_take_bit_int_eq_self)
    show "- (2 ^ 7) \<le> uint c" by (rule order_trans [of _ 0]) simp_all
    show "uint c < 2 ^ 7" using u by simp
  qed
  finally have "sint c = uint c" .
  with u show ?thesis by simp
qed

lemma char_range_sint: "0 \<le> sint c \<and> sint c < 32 \<longleftrightarrow> (c :: 8 word) < 32"
proof
  assume r: "0 \<le> sint c \<and> sint c < 32"
  have "uint c = take_bit 8 (sint c)" by (simp add: uint_sint)
  also have "\<dots> = sint c" using r by (simp add: take_bit_int_eq_self)
  finally show "c < 32" using r by (simp add: word_less_alt)
next
  assume "c < 32"
  then show "0 \<le> sint c \<and> sint c < 32" by (rule small_char_sint)
qed

lemma smod_nonneg: "0 \<le> a \<Longrightarrow> 0 < b \<Longrightarrow> a smod b = a mod (b :: int)"
  by (simp add: signed_modulo_int_def sgn_if)

lemma sdiv_nonneg: "0 \<le> a \<Longrightarrow> 0 < b \<Longrightarrow> a sdiv b = a div (b :: int)"
  by (simp add: signed_divide_int_def sgn_if)

lemma raw_step_count_range: "\<bar>raw_step_count chr lst\<bar> < 2 ^ 15"
proof -
  have "\<bar>(sint chr - sint lst + 32) smod 32\<bar> < 32"
    by (simp add: signed_modulo_int_def abs_mult abs_sgn_eq)
  then show ?thesis by (simp add: raw_step_count_def abs_mult)
qed


lemma int_mod_range:
  assumes "0 \<le> (u::int)" "u < 256"
  shows "((u - 65) mod 256 < 32) = (65 \<le> u \<and> u \<le> 96)"
proof (cases "65 \<le> u")
  case True
  with assms have "(u - 65) mod 256 = u - 65" by simp
  with True show ?thesis by auto
next
  case False
  have "(u - 65) mod 256 = (u - 65 + 256) mod 256" by (simp only: mod_add_self2)
  also have "u - 65 + 256 = u + 191" by simp
  also have "(u + 191) mod 256 = u + 191" using assms False by simp
  finally show ?thesis using assms False by simp
qed

lemma int_mod_AZ:
  assumes "65 \<le> (u::int)" "u \<le> 90"
  shows "(u - 65) mod 256 \<le> 25"
proof -
  from assms have "(u - 65) mod 256 = u - 65" by simp
  with assms show ?thesis by simp
qed

lemma letter_offset_range: "(c :: 8 word) - 0x41 < 32 \<longleftrightarrow> 0x41 \<le> c \<and> c \<le> 0x60"
proof -
  have u: "0 \<le> uint c" "uint c < 256" using uint_lt2p [of c] by simp_all
  have "uint (c - 0x41) = (uint c - 65) mod 256" by (simp add: uint_word_ariths)
  with int_mod_range [OF u] show ?thesis by (simp add: word_less_alt word_le_def)
qed

lemma letter_offset_AZ: "0x41 \<le> (c :: 8 word) \<Longrightarrow> c \<le> 0x5A \<Longrightarrow> c - 0x41 \<le> 25"
proof -
  assume "0x41 \<le> c" "c \<le> 0x5A"
  then have u: "65 \<le> uint c" "uint c \<le> 90" by (simp_all add: word_le_def)
  have "uint (c - 0x41) = (uint c - 65) mod 256" by (simp add: uint_word_ariths)
  with int_mod_AZ [OF u] show ?thesis by (simp add: word_le_def)
qed

section \<open>The stepping loop\<close>

declare step_units.simps [simp del] load_units.simps [simp del]

lemma step_units_unfold:
  "step_units ff s = (if ff < NUM_UNITS then step_units (ff + 1) (step_unit ff s) else s)"
  by (subst step_units.simps) (simp add: step_unit_def)

lemma step_fwd_fields [simp]:
  "steps (step_fwd n s) = steps s" "acc (step_fwd n s) = acc s"
  "acc_t (step_fwd n s) = acc_t s" "last_display (step_fwd n s) = last_display s"
  "rolling (step_fwd n s) = rolling s" "message (step_fwd n s) = message s"
  "pins (step_fwd n s) = pins s"
  "length (rotors (step_fwd n s)) = length (rotors s)"
  by (simp_all add: step_fwd_byte)

lemma step_fwd_wf [simp]: "wf_state (step_fwd n s) = wf_state s"
  by (simp add: wf_state_def)

lemma step_fwd_one_hot:
  assumes "one_hot_rotors s"
  shows "one_hot_rotors (step_fwd n s)"
proof (cases "n div 2 < length (rotors s)")
  case True
  then have "one_hot_byte (rotors s ! (n div 2))"
    using assms by (simp add: one_hot_rotors_def)
  then have "one_hot_byte (step_byte (n mod 2 = 0) (rotors s ! (n div 2)))"
    by (cases "n mod 2 = 0") (simp_all add: step_byte_even step_byte_odd)
  with assms show ?thesis
    by (auto simp: one_hot_rotors_def step_fwd_byte dest: set_update_subset_insert [THEN subsetD])
next
  case False
  with assms show ?thesis by (simp add: one_hot_rotors_def step_fwd_byte list_update_beyond)
qed

lemma step_fwd_phase:
  assumes "wf_state s" "one_hot_rotors s" "n < NUM_UNITS" "i < NUM_UNITS"
  shows "phase_of i (rotors (step_fwd n s)) =
           (if i = n then next_phase (phase_of i (rotors s)) else phase_of i (rotors s))"
proof -
  from assms have len: "n div 2 < length (rotors s)" "i div 2 < length (rotors s)"
    by (simp_all add: wf_state_def)
  then have oh: "one_hot_byte (rotors s ! (n div 2))"
    using assms by (simp add: one_hot_rotors_def)
  show ?thesis
  proof (cases "i div 2 = n div 2")
    case False
    then have "i \<noteq> n" by auto
    with False len show ?thesis by (simp add: phase_of_def step_fwd_byte)
  next
    case True
    note same = this
    show ?thesis
    proof (cases "i = n")
      case True
      with len oh show ?thesis
        by (cases "n mod 2 = 0") (simp_all add: phase_of_def step_fwd_byte step_byte_even step_byte_odd)
    next
      case False
      with same have par: "i mod 2 \<noteq> n mod 2"
        by (metis div_mult_mod_eq)
      with same len oh False show ?thesis
        by (cases "n mod 2 = 0") (auto simp: phase_of_def step_fwd_byte step_byte_even step_byte_odd)
    qed
  qed
qed

lemma step_fwd_on_update:
  assumes "n div 2 < length xs" "rotors s' = xs[n div 2 := b]"
  shows "rotors (step_fwd n s') = xs[n div 2 := step_byte (n mod 2 = 0) b]"
  using assms by (simp add: step_fwd_byte)

lemma step_fwd_four:
  assumes "wf_state s" "one_hot_rotors s" "n < NUM_UNITS"
  shows "rotors (step_fwd n (step_fwd n (step_fwd n (step_fwd n s)))) = rotors s"
proof -
  let ?k = "n div 2" and ?ev = "n mod 2 = 0"
  let ?b = "rotors s ! ?k"
  from assms have len: "?k < length (rotors s)" by (simp add: wf_state_def)
  with assms(2) have oh: "one_hot_byte ?b" by (simp add: one_hot_rotors_def)
  have 1: "rotors (step_fwd n s) = (rotors s)[?k := step_byte ?ev ?b]"
    by (simp add: step_fwd_byte)
  note 2 = step_fwd_on_update [OF len 1]
  note 3 = step_fwd_on_update [OF len 2]
  note 4 = step_fwd_on_update [OF len 3]
  show ?thesis by (simp only: 4 step_byte_four [OF oh] list_update_id)
qed

lemma step_unit_fields [simp]:
  "acc (step_unit n s) = acc s" "acc_t (step_unit n s) = acc_t s"
  "last_display (step_unit n s) = last_display s" "message (step_unit n s) = message s"
  "pins (step_unit n s) = pins s"
  by (simp_all add: step_unit_def Let_def)

lemma step_unit_wf [simp]: "wf_state (step_unit n s) = wf_state s"
  by (simp add: step_unit_def Let_def wf_state_def)

lemma step_unit_one_hot: "one_hot_rotors s \<Longrightarrow> one_hot_rotors (step_unit n s)"
  using step_fwd_one_hot [of s n] by (simp add: step_unit_def Let_def one_hot_rotors_def)

lemma step_unit_steps:
  "steps (step_unit n s) =
     (if - BRAKE_STEPS < steps s ! n then (steps s)[n := steps s ! n - 1] else steps s)"
  by (simp add: step_unit_def Let_def)

lemma step_unit_rolling:
  "rolling (step_unit n s) \<longleftrightarrow> rolling s \<or> - BRAKE_STEPS < steps s ! n"
  by (simp add: step_unit_def Let_def)

lemma step_unit_phase:
  assumes "wf_state s" "one_hot_rotors s" "n < NUM_UNITS" "i < NUM_UNITS"
  shows "phase_of i (rotors (step_unit n s)) =
           (if i = n \<and> 0 < steps s ! n then next_phase (phase_of i (rotors s))
            else phase_of i (rotors s))"
proof (cases "- BRAKE_STEPS < steps s ! n")
  case True
  show ?thesis
  proof (cases "0 < steps s ! n")
    case True
    then have "rotors (step_unit n s) = rotors (step_fwd n s)"
      by (simp add: step_unit_def Let_def)
    with True step_fwd_phase [OF assms] show ?thesis by simp
  next
    case False
    then have "rotors (step_unit n s) = rotors s"
      by (simp add: step_unit_def Let_def)
    with False show ?thesis by simp
  qed
next
  case False
  then have "step_unit n s = s" "\<not> 0 < steps s ! n"
    by (simp_all add: step_unit_def)
  then show ?thesis by simp
qed


lemma step_units_induct [case_names step]:
  assumes "\<And>ff s. (ff < NUM_UNITS \<Longrightarrow> P (ff + 1) (step_unit ff s)) \<Longrightarrow> P ff s"
  shows "P ff s"
proof (induction ff s rule: step_units.induct)
  case (1 ff s)
  show ?case
  proof (rule assms)
    assume "ff < NUM_UNITS"
    from "1.IH" [OF this] show "P (ff + 1) (step_unit ff s)"
      by (simp only: step_unit_def)
  qed
qed

lemma step_units_acc [simp]: "acc (step_units ff s) = acc s"
  by (induction ff s rule: step_units_induct) (subst step_units_unfold, simp)

lemma step_units_acc_t [simp]: "acc_t (step_units ff s) = acc_t s"
  by (induction ff s rule: step_units_induct) (subst step_units_unfold, simp)

lemma step_units_last_display [simp]: "last_display (step_units ff s) = last_display s"
  by (induction ff s rule: step_units_induct) (subst step_units_unfold, simp)

lemma step_units_message [simp]: "message (step_units ff s) = message s"
  by (induction ff s rule: step_units_induct) (subst step_units_unfold, simp)

lemma step_units_pins [simp]: "pins (step_units ff s) = pins s"
  by (induction ff s rule: step_units_induct) (subst step_units_unfold, simp)

lemma step_units_wf [simp]: "wf_state (step_units ff s) = wf_state s"
  by (induction ff s rule: step_units_induct) (subst step_units_unfold, simp)

lemma step_units_one_hot: "one_hot_rotors s \<Longrightarrow> one_hot_rotors (step_units ff s)"
  by (induction ff s rule: step_units_induct)
     (subst step_units_unfold, simp add: step_unit_one_hot)

lemma step_unit_steps_nth:
  "ff < length (steps s) \<Longrightarrow>
   steps (step_unit ff s) ! i =
     (if i = ff \<and> - BRAKE_STEPS < steps s ! ff then steps s ! ff - 1 else steps s ! i)"
  by (simp add: step_unit_steps nth_list_update)

lemma step_units_steps:
  "wf_state s \<Longrightarrow> i < NUM_UNITS \<Longrightarrow>
   steps (step_units ff s) ! i =
     (if ff \<le> i \<and> - BRAKE_STEPS < steps s ! i then steps s ! i - 1 else steps s ! i)"
proof (induction ff s rule: step_units_induct)
  case (step ff s)
  show ?case
  proof (cases "ff < NUM_UNITS")
    case True
    have len: "ff < length (steps s)"
      using True step.prems by (simp add: wf_state_def)
    have "steps (step_units ff s) ! i = steps (step_units (ff + 1) (step_unit ff s)) ! i"
      using True by (subst step_units_unfold) simp
    also have "\<dots> = (if ff + 1 \<le> i \<and> - BRAKE_STEPS < steps (step_unit ff s) ! i
                      then steps (step_unit ff s) ! i - 1 else steps (step_unit ff s) ! i)"
      using step.IH [OF True] step.prems by simp
    also have "\<dots> = (if ff \<le> i \<and> - BRAKE_STEPS < steps s ! i then steps s ! i - 1
                      else steps s ! i)"
    proof (cases "i = ff")
      case True
      then show ?thesis by (simp add: step_unit_steps_nth [OF len])
    next
      case False
      then have "ff + 1 \<le> i \<longleftrightarrow> ff \<le> i" by arith
      with False show ?thesis by (simp add: step_unit_steps_nth [OF len])
    qed
    finally show ?thesis .
  next
    case False
    then have "step_units ff s = s" by (subst step_units_unfold) simp
    with False step.prems show ?thesis by simp
  qed
qed

lemma step_units_rolling:
  "wf_state s \<Longrightarrow>
   rolling (step_units ff s) \<longleftrightarrow>
     rolling s \<or> (\<exists>i. ff \<le> i \<and> i < NUM_UNITS \<and> - BRAKE_STEPS < steps s ! i)"
proof (induction ff s rule: step_units_induct)
  case (step ff s)
  show ?case
  proof (cases "ff < NUM_UNITS")
    case True
    have len: "ff < length (steps s)"
      using True step.prems by (simp add: wf_state_def)
    have upd: "ff + 1 \<le> i \<Longrightarrow> steps (step_unit ff s) ! i = steps s ! i" for i
      by (simp add: step_unit_steps_nth [OF len])
    have split: "ff \<le> i \<longleftrightarrow> i = ff \<or> ff + 1 \<le> i" for i
      by arith
    have "rolling (step_units ff s) = rolling (step_units (ff + 1) (step_unit ff s))"
      using True by (subst step_units_unfold) simp
    also have "\<dots> \<longleftrightarrow> rolling (step_unit ff s) \<or>
        (\<exists>i. ff + 1 \<le> i \<and> i < NUM_UNITS \<and> - BRAKE_STEPS < steps (step_unit ff s) ! i)"
      using step.IH [OF True] step.prems by simp
    also have "\<dots> \<longleftrightarrow> (rolling s \<or> - BRAKE_STEPS < steps s ! ff) \<or>
        (\<exists>i. ff + 1 \<le> i \<and> i < NUM_UNITS \<and> - BRAKE_STEPS < steps s ! i)"
      using upd by (simp only: step_unit_rolling) metis
    also have "\<dots> \<longleftrightarrow> rolling s \<or> (\<exists>i. ff \<le> i \<and> i < NUM_UNITS \<and> - BRAKE_STEPS < steps s ! i)"
      using True by (simp only: split) blast
    finally show ?thesis .
  next
    case False
    then have "step_units ff s = s" by (subst step_units_unfold) simp
    with False show ?thesis by auto
  qed
qed

lemma step_units_phase:
  "wf_state s \<Longrightarrow> one_hot_rotors s \<Longrightarrow> i < NUM_UNITS \<Longrightarrow>
   phase_of i (rotors (step_units ff s)) =
     (if ff \<le> i \<and> 0 < steps s ! i then next_phase (phase_of i (rotors s))
      else phase_of i (rotors s))"
proof (induction ff s rule: step_units_induct)
  case (step ff s)
  show ?case
  proof (cases "ff < NUM_UNITS")
    case True
    have len: "ff < length (steps s)"
      using True step.prems by (simp add: wf_state_def)
    have "phase_of i (rotors (step_units ff s)) =
          phase_of i (rotors (step_units (ff + 1) (step_unit ff s)))"
      using True by (subst step_units_unfold) simp
    also have "\<dots> = (if ff + 1 \<le> i \<and> 0 < steps (step_unit ff s) ! i
                      then next_phase (phase_of i (rotors (step_unit ff s)))
                      else phase_of i (rotors (step_unit ff s)))"
      using step.IH [OF True] step.prems
      by (simp add: step_unit_one_hot)
    also have "\<dots> = (if ff \<le> i \<and> 0 < steps s ! i then next_phase (phase_of i (rotors s))
                      else phase_of i (rotors s))"
    proof (cases "i = ff")
      case True
      with step.prems show ?thesis by (simp add: step_unit_phase)
    next
      case False
      then have "ff + 1 \<le> i \<longleftrightarrow> ff \<le> i" by arith
      with False True step.prems show ?thesis
        by (simp add: step_unit_phase step_unit_steps_nth [OF len])
    qed
    finally show ?thesis .
  next
    case False
    then have "step_units ff s = s" by (subst step_units_unfold) simp
    with False step.prems show ?thesis by simp
  qed
qed


lemma any_active_nth:
  assumes "wf_state s"
  shows "any_active s \<longleftrightarrow> (\<exists>i<NUM_UNITS. - BRAKE_STEPS < steps s ! i)"
proof -
  from assms have len: "length (steps s) = NUM_UNITS" by (simp add: wf_state_def)
  show ?thesis
  proof
    assume "any_active s"
    then obtain x where "x \<in> set (steps s)" "- BRAKE_STEPS < x"
      by (auto simp: any_active_def)
    then obtain i where "i < length (steps s)" "steps s ! i = x"
      by (auto simp: in_set_conv_nth)
    with len \<open>- BRAKE_STEPS < x\<close> show "\<exists>i<NUM_UNITS. - BRAKE_STEPS < steps s ! i"
      by auto
  next
    assume "\<exists>i<NUM_UNITS. - BRAKE_STEPS < steps s ! i"
    then obtain i where "i < NUM_UNITS" "- BRAKE_STEPS < steps s ! i" by blast
    with len have "steps s ! i \<in> set (steps s)" by simp
    with \<open>- BRAKE_STEPS < steps s ! i\<close> show "any_active s"
      by (auto simp: any_active_def)
  qed
qed


section \<open>The loading loop\<close>

lemma load_units_unfold:
  "load_units r p s =
     (if r < NUM_UNITS
      then load_units (r + 1) (if message s ! p \<noteq> 0 then p + 1 else p) (load_unit r p s)
      else s)"
proof -
  have "message s ! p = 0 \<Longrightarrow> (message s)[p := 0] = message s"
    by (metis list_update_id)
  then show ?thesis
    by (subst load_units.simps) (simp add: load_unit_def Let_def)
qed

lemma load_units_induct [case_names load]:
  assumes "\<And>r p s. (r < NUM_UNITS \<Longrightarrow>
              P (r + 1) (if message s ! p \<noteq> 0 then p + 1 else p) (load_unit r p s)) \<Longrightarrow> P r p s"
  shows "P r p s"
proof (induction r p s rule: load_units.induct)
  case (1 r p s)
  have same: "message s ! p = 0 \<Longrightarrow> (message s)[p := 0] = message s"
    by (metis list_update_id)
  show ?case
  proof (rule assms)
    assume lt: "r < NUM_UNITS"
    show "P (r + 1) (if message s ! p \<noteq> 0 then p + 1 else p) (load_unit r p s)"
    proof (cases "message s ! p = 0")
      case True
      with "1.IH"(2) [OF lt refl refl refl] same show ?thesis
        by (simp add: load_unit_def Let_def)
    next
      case False
      with "1.IH"(1) [OF lt refl refl refl] show ?thesis
        by (simp add: load_unit_def Let_def)
    qed
  qed
qed

lemma load_unit_fields [simp]:
  "rotors (load_unit r p s) = rotors s" "acc (load_unit r p s) = acc s"
  "acc_t (load_unit r p s) = acc_t s" "rolling (load_unit r p s) = rolling s"
  "pins (load_unit r p s) = pins s"
  by (simp_all add: load_unit_def Let_def)

lemma load_unit_wf [simp]: "wf_state (load_unit r p s) = wf_state s"
  by (simp add: load_unit_def Let_def wf_state_def)

lemma load_units_rotors [simp]: "rotors (load_units r p s) = rotors s"
  by (induction r p s rule: load_units_induct) (subst load_units_unfold, simp)

lemma load_units_acc [simp]: "acc (load_units r p s) = acc s"
  by (induction r p s rule: load_units_induct) (subst load_units_unfold, simp)

lemma load_units_acc_t [simp]: "acc_t (load_units r p s) = acc_t s"
  by (induction r p s rule: load_units_induct) (subst load_units_unfold, simp)

lemma load_units_rolling [simp]: "rolling (load_units r p s) = rolling s"
  by (induction r p s rule: load_units_induct) (subst load_units_unfold, simp)

lemma load_units_pins [simp]: "pins (load_units r p s) = pins s"
  by (induction r p s rule: load_units_induct) (subst load_units_unfold, simp)

lemma load_units_wf [simp]: "wf_state (load_units r p s) = wf_state s"
  by (induction r p s rule: load_units_induct) (subst load_units_unfold, simp)

lemma msg_len_nonzero:
  assumes "p < length (message s)" "message s ! p \<noteq> 0"
  shows "msg_len p s = Suc (msg_len (Suc p) (load_unit r p s))"
proof -
  have "drop p (message s) = message s ! p # drop (Suc p) (message s)"
    using assms(1) by (simp add: Cons_nth_drop_Suc)
  moreover have "drop (Suc p) (message (load_unit r p s)) = drop (Suc p) (message s)"
    by (simp add: load_unit_def Let_def)
  ultimately show ?thesis using assms(2) by (simp add: msg_len_def)
qed

lemma msg_len_zero:
  assumes "p < length (message s)" "message s ! p = 0"
  shows "msg_len p s = 0" and "message (load_unit r p s) = message s"
proof -
  have "drop p (message s) = message s ! p # drop (Suc p) (message s)"
    using assms(1) by (simp add: Cons_nth_drop_Suc)
  then show "msg_len p s = 0" using assms(2) by (simp add: msg_len_def)
  show "message (load_unit r p s) = message s"
    using assms(2) by (simp add: load_unit_def Let_def) (metis list_update_id)
qed

lemma load_unit_message_nth:
  "p < length (message s) \<Longrightarrow>
   message (load_unit r p s) ! j = (if j = p then 0 else message s ! j)"
  by (simp add: load_unit_def Let_def nth_list_update)

lemma load_unit_last_display_nth:
  "r < length (last_display s) \<Longrightarrow>
   last_display (load_unit r p s) ! i =
     (if i = r then compute_target (message s ! p) else last_display s ! i)"
  by (simp add: load_unit_def Let_def nth_list_update)

lemma load_unit_steps_nth:
  "r < length (steps s) \<Longrightarrow>
   steps (load_unit r p s) ! i =
     (if i = r then step_plan (compute_target (message s ! p)) (last_display s ! r)
      else steps s ! i)"
  by (simp add: load_unit_def Let_def nth_list_update)

lemma load_units_message:
  "wf_state s \<Longrightarrow> p \<le> r \<Longrightarrow>
   message (load_units r p s) ! j =
     (if p \<le> j \<and> j < p + min (msg_len p s) (NUM_UNITS - r) then 0 else message s ! j)"
proof (induction r p s rule: load_units_induct)
  case (load r p s)
  show ?case
  proof (cases "r < NUM_UNITS")
    case False
    then have "load_units r p s = s" by (subst load_units_unfold) simp
    with False show ?thesis by auto
  next
    case True
    with load.prems have plen: "p < length (message s)" by (simp add: wf_state_def)
    show ?thesis
    proof (cases "message s ! p = 0")
      case True
      note zero = this
      have "message (load_units r p s) ! j = message (load_units (r + 1) p (load_unit r p s)) ! j"
        using \<open>r < NUM_UNITS\<close> zero by (subst load_units_unfold) simp
      also have "\<dots> = (if p \<le> j \<and> j < p + min (msg_len p (load_unit r p s)) (NUM_UNITS - (r + 1))
                        then 0 else message (load_unit r p s) ! j)"
        using load.IH [OF \<open>r < NUM_UNITS\<close>] load.prems zero by simp
      also have "\<dots> = message s ! j"
        using msg_len_zero(1) [OF plen zero] msg_len_zero(2) [OF plen zero, of r]
        by (auto simp: msg_len_def)
      finally show ?thesis using msg_len_zero(1) [OF plen zero] by auto
    next
      case False
      note nz = this
      have ml: "msg_len p s = Suc (msg_len (Suc p) (load_unit r p s))"
        by (rule msg_len_nonzero [OF plen nz])
      have "message (load_units r p s) ! j =
            message (load_units (r + 1) (p + 1) (load_unit r p s)) ! j"
        using \<open>r < NUM_UNITS\<close> nz by (subst load_units_unfold) simp
      also have "\<dots> = (if p + 1 \<le> j \<and>
                           j < p + 1 + min (msg_len (p + 1) (load_unit r p s)) (NUM_UNITS - (r + 1))
                        then 0 else message (load_unit r p s) ! j)"
        using load.IH [OF \<open>r < NUM_UNITS\<close>] load.prems nz by simp
      also have "\<dots> = (if p \<le> j \<and> j < p + min (msg_len p s) (NUM_UNITS - r) then 0
                        else message s ! j)"
      proof (cases "j = p")
        case True
        with \<open>r < NUM_UNITS\<close> show ?thesis
          by (simp add: ml load_unit_message_nth [OF plen])
      next
        case False
        then have a: "p + 1 \<le> j \<longleftrightarrow> p \<le> j" by arith
        have b: "p + 1 + min (msg_len (p + 1) (load_unit r p s)) (NUM_UNITS - (r + 1))
               = p + min (msg_len p s) (NUM_UNITS - r)"
          using \<open>r < NUM_UNITS\<close> by (simp add: ml)
        from False show ?thesis
          by (simp only: a b load_unit_message_nth [OF plen]) simp
      qed
      finally show ?thesis .
    qed
  qed
qed

lemma load_units_last_display:
  "wf_state s \<Longrightarrow> p \<le> r \<Longrightarrow> i < NUM_UNITS \<Longrightarrow>
   last_display (load_units r p s) ! i =
     (if r \<le> i
      then (if i - r < msg_len p s then compute_target (message s ! (p + (i - r)))
            else word_of_int (NUM_FLAPS - 1))
      else last_display s ! i)"
proof (induction r p s rule: load_units_induct)
  case (load r p s)
  show ?case
  proof (cases "r < NUM_UNITS")
    case False
    then have "load_units r p s = s" by (subst load_units_unfold) simp
    with False load.prems show ?thesis by simp
  next
    case True
    with load.prems have plen: "p < length (message s)"
      and rlen: "r < length (last_display s)" by (simp_all add: wf_state_def)
    show ?thesis
    proof (cases "message s ! p = 0")
      case True
      note zero = this
      have "last_display (load_units r p s) ! i =
            last_display (load_units (r + 1) p (load_unit r p s)) ! i"
        using \<open>r < NUM_UNITS\<close> zero by (subst load_units_unfold) simp
      also have "\<dots> = (if r + 1 \<le> i
          then (if i - (r + 1) < msg_len p (load_unit r p s)
                then compute_target (message (load_unit r p s) ! (p + (i - (r + 1))))
                else word_of_int (NUM_FLAPS - 1))
          else last_display (load_unit r p s) ! i)"
        using load.IH [OF \<open>r < NUM_UNITS\<close>] load.prems zero by simp
      also have "\<dots> = (if r \<le> i then word_of_int (NUM_FLAPS - 1) else last_display s ! i)"
      proof (cases "i = r")
        case True
        with zero show ?thesis
          by (simp add: load_unit_last_display_nth [OF rlen] compute_target_def)
      next
        case False
        then have "r + 1 \<le> i \<longleftrightarrow> r \<le> i" by arith
        moreover have "msg_len p (load_unit r p s) = 0"
          using msg_len_zero(1) [OF plen zero] msg_len_zero(2) [OF plen zero, of r]
        by (simp add: msg_len_def)
        ultimately show ?thesis using False
          by (simp add: load_unit_last_display_nth [OF rlen])
      qed
      finally show ?thesis using msg_len_zero(1) [OF plen zero] by simp
    next
      case False
      note nz = this
      have ml: "msg_len p s = Suc (msg_len (Suc p) (load_unit r p s))"
        by (rule msg_len_nonzero [OF plen nz])
      have "last_display (load_units r p s) ! i =
            last_display (load_units (r + 1) (p + 1) (load_unit r p s)) ! i"
        using \<open>r < NUM_UNITS\<close> nz by (subst load_units_unfold) simp
      also have "\<dots> = (if r + 1 \<le> i
          then (if i - (r + 1) < msg_len (p + 1) (load_unit r p s)
                then compute_target (message (load_unit r p s) ! (p + 1 + (i - (r + 1))))
                else word_of_int (NUM_FLAPS - 1))
          else last_display (load_unit r p s) ! i)"
        using load.IH [OF \<open>r < NUM_UNITS\<close>] load.prems nz by simp
      also have "\<dots> = (if r \<le> i
          then (if i - r < msg_len p s then compute_target (message s ! (p + (i - r)))
                else word_of_int (NUM_FLAPS - 1))
          else last_display s ! i)"
      proof (cases "i = r")
        case True
        then show ?thesis
          by (simp add: ml load_unit_last_display_nth [OF rlen])
      next
        case False
        show ?thesis
        proof (cases "r + 1 \<le> i")
          case True
          then have a: "r \<le> i" "p + 1 + (i - (r + 1)) = p + (i - r)"
            "i - (r + 1) < msg_len (p + 1) (load_unit r p s) \<longleftrightarrow> i - r < msg_len p s"
            "p + (i - r) \<noteq> p"
            by (simp_all add: ml) arith
          from True show ?thesis
            by (simp only: a load_unit_message_nth [OF plen]) simp
        next
          case False
          with \<open>i \<noteq> r\<close> have "\<not> r \<le> i" by arith
          with False \<open>i \<noteq> r\<close> show ?thesis
            by (simp add: load_unit_last_display_nth [OF rlen])
        qed
      qed
      finally show ?thesis .
    qed
  qed
qed

lemma load_units_steps:
  "wf_state s \<Longrightarrow> p \<le> r \<Longrightarrow> i < NUM_UNITS \<Longrightarrow>
   steps (load_units r p s) ! i =
     (if r \<le> i then step_plan (last_display (load_units r p s) ! i) (last_display s ! i)
      else steps s ! i)"
proof (induction r p s rule: load_units_induct)
  case (load r p s)
  show ?case
  proof (cases "r < NUM_UNITS")
    case False
    then have "load_units r p s = s" by (subst load_units_unfold) simp
    with False load.prems show ?thesis by simp
  next
    case True
    define p' where "p' = (if message s ! p \<noteq> 0 then p + 1 else p)"
    define s' where "s' = load_unit r p s"
    have un: "load_units r p s = load_units (r + 1) p' s'"
      using True by (subst load_units_unfold) (simp add: p'_def s'_def)
    from True load.prems have rlen: "r < length (last_display s)" "r < length (steps s)"
      by (simp_all add: wf_state_def)
    have wf': "wf_state s'" and le': "p' \<le> r + 1"
      using load.prems by (simp_all add: s'_def p'_def)
    have ih: "steps (load_units (r + 1) p' s') ! i =
        (if r + 1 \<le> i then step_plan (last_display (load_units (r + 1) p' s') ! i) (last_display s' ! i)
         else steps s' ! i)"
      using load.IH [OF True] load.prems by (simp add: s'_def p'_def)
    show ?thesis
    proof (cases "i = r")
      case True
      have "last_display (load_units (r + 1) p' s') ! r = last_display s' ! r"
        using load_units_last_display [OF wf' le', of r] \<open>r < NUM_UNITS\<close> by simp
      then show ?thesis
        using True ih
        by (simp add: un s'_def load_unit_steps_nth [OF rlen(2)]
              load_unit_last_display_nth [OF rlen(1)])
    next
      case False
      then have "r + 1 \<le> i \<longleftrightarrow> r \<le> i" by arith
      with False ih show ?thesis
        by (simp add: un s'_def load_unit_steps_nth [OF rlen(2)]
              load_unit_last_display_nth [OF rlen(1)])
    qed
  qed
qed

section \<open>The output\<close>

lemma rotors_out_unit_fields [simp]:
  "rotors (rotors_out_unit n s) = rotors s" "steps (rotors_out_unit n s) = steps s"
  "acc (rotors_out_unit n s) = acc s" "acc_t (rotors_out_unit n s) = acc_t s"
  "last_display (rotors_out_unit n s) = last_display s"
  "rolling (rotors_out_unit n s) = rolling s" "message (rotors_out_unit n s) = message s"
  by (simp_all add: rotors_out_unit_def Let_def)

lemma rotors_out_fields [simp]:
  "rotors (rotors_out s) = rotors s" "steps (rotors_out s) = steps s"
  "acc (rotors_out s) = acc s" "acc_t (rotors_out s) = acc_t s"
  "last_display (rotors_out s) = last_display s"
  "rolling (rotors_out s) = rolling s" "message (rotors_out s) = message s"
  by (simp_all add: rotors_out_def)

lemma rotors_out_wf [simp]: "wf_state (rotors_out s) = wf_state s"
  by (simp add: wf_state_def)

lemma rotors_out_one_hot [simp]: "one_hot_rotors (rotors_out s) = one_hot_rotors s"
  by (simp add: one_hot_rotors_def)

lemma phase_one_hot:
  assumes "wf_state s" "one_hot_rotors s" "n < NUM_UNITS"
  shows "one_hot_nibble (phase_of n (rotors s))"
proof -
  from assms have "n div 2 < length (rotors s)" by (simp add: wf_state_def)
  with assms(2) have "one_hot_byte (rotors s ! (n div 2))"
    by (simp add: one_hot_rotors_def)
  then show ?thesis by (simp add: phase_of_def one_hot_byte_def)
qed

lemma rotors_out_unit_pins:
  assumes "wf_state s" "one_hot_rotors s" "n < NUM_UNITS"
  shows "pins (rotors_out_unit n s) =
           (if - BRAKE_STEPS < steps s ! n then excitation (phase_of n (rotors s))
            else (False, False, False, False))"
proof -
  from assms have "n div 2 < length (rotors s)" by (simp add: wf_state_def)
  with assms(2) have oh: "one_hot_byte (rotors s ! (n div 2))"
    by (simp add: one_hot_rotors_def)
  show ?thesis
    by (simp add: rotors_out_unit_def Let_def phase_of_def
          excitation_high_nibble [OF oh] excitation_low_nibble [OF oh])
qed

section \<open>One tick\<close>

lemma wf_state_rolling [simp]: "wf_state (s\<lparr>rolling := b\<rparr>) = wf_state s"
  by (simp add: wf_state_def)

lemma wf_state_clock [simp]:
  "wf_state (s\<lparr>acc := a\<rparr>) = wf_state s" "wf_state (s\<lparr>acc_t := a\<rparr>) = wf_state s"
  by (simp_all add: wf_state_def)

lemma one_hot_rotors_upd [simp]:
  "one_hot_rotors (s\<lparr>rolling := b\<rparr>) = one_hot_rotors s"
  "one_hot_rotors (s\<lparr>acc := a\<rparr>) = one_hot_rotors s"
  "one_hot_rotors (s\<lparr>acc_t := a\<rparr>) = one_hot_rotors s"
  by (simp_all add: one_hot_rotors_def)

lemma any_active_rolling [simp]: "any_active (s\<lparr>rolling := b\<rparr>) = any_active s"
  by (simp add: any_active_def)

lemma stepped_rolling:
  "wf_state s \<Longrightarrow> rolling (stepped s) \<longleftrightarrow> acc_t s = 0 \<and> any_active s"
  by (simp add: stepped_def step_units_rolling any_active_nth)

lemma move_rotors_stepped:
  "move_rotors s =
     (let s3 = stepped s;
          s4 = (if acc_t s = 0
                then (if 0 <s acc s then s3\<lparr>acc := acc s - 1, acc_t := acc s - 1\<rparr> else s3)
                else s3\<lparr>acc_t := acc_t s - 1, rolling := True\<rparr>)
      in if \<not> rolling s4 then
           let s5 = s4\<lparr>acc := INITIAL_ACCEL\<rparr>
           in if message s ! 0 = 0 then s5 else load_units 0 0 s5
         else s4)"
  by (simp add: move_rotors_def stepped_def Let_def)

lemma stepped_fields [simp]:
  "acc (stepped s) = acc s" "acc_t (stepped s) = acc_t s"
  "message (stepped s) = message s" "last_display (stepped s) = last_display s"
  by (simp_all add: stepped_def)

lemma stepped_wf [simp]: "wf_state (stepped s) = wf_state s"
  by (simp add: stepped_def)

lemma stepped_one_hot: "one_hot_rotors s \<Longrightarrow> one_hot_rotors (stepped s)"
  by (simp add: stepped_def step_units_one_hot)

lemma stepped_steps:
  "wf_state s \<Longrightarrow> i < NUM_UNITS \<Longrightarrow>
   steps (stepped s) ! i =
     (if acc_t s = 0 \<and> - BRAKE_STEPS < steps s ! i then steps s ! i - 1 else steps s ! i)"
  by (simp add: stepped_def step_units_steps)

lemma stepped_steps_le:
  "wf_state s \<Longrightarrow> i < NUM_UNITS \<Longrightarrow> steps (stepped s) ! i \<le> steps s ! i"
  by (simp add: stepped_steps)

lemma stepped_phase:
  "wf_state s \<Longrightarrow> one_hot_rotors s \<Longrightarrow> i < NUM_UNITS \<Longrightarrow>
   phase_of i (rotors (stepped s)) =
     (if acc_t s = 0 \<and> 0 < steps s ! i then next_phase (phase_of i (rotors s))
      else phase_of i (rotors s))"
  by (simp add: stepped_def step_units_phase)


lemma stepped_pins:
  assumes "wf_state s" "one_hot_rotors s"
  shows "pins (stepped s) =
           (if - BRAKE_STEPS < steps (stepped s) ! 0 then excitation (phase_of 0 (rotors (stepped s)))
            else (False, False, False, False))"
proof -
  define s2 where "s2 = (if acc_t s = 0 then step_units 0 (s\<lparr>rolling := False\<rparr>)
                           else s\<lparr>rolling := False\<rparr>)"
  have st: "stepped s = rotors_out_unit 0 s2" by (simp add: stepped_def s2_def rotors_out_def)
  have "wf_state s2" "one_hot_rotors s2"
    using assms by (simp_all add: s2_def step_units_one_hot)
  from rotors_out_unit_pins [OF this, of 0] show ?thesis by (simp add: st)
qed

lemma move_rotors_rotors [simp]: "rotors (move_rotors s) = rotors (stepped s)"
  by (simp add: move_rotors_stepped Let_def)

lemma move_rotors_pins [simp]: "pins (move_rotors s) = pins (stepped s)"
  by (simp add: move_rotors_stepped Let_def)

lemma move_rotors_wf [simp]: "wf_state (move_rotors s) = wf_state s"
  by (simp add: move_rotors_stepped Let_def)

lemma move_rotors_one_hot: "one_hot_rotors s \<Longrightarrow> one_hot_rotors (move_rotors s)"
  using stepped_one_hot [of s] by (simp add: one_hot_rotors_def)

lemma move_rotors_rolling:
  "wf_state s \<Longrightarrow> rolling (move_rotors s) \<longleftrightarrow> acc_t s \<noteq> 0 \<or> any_active s"
  by (simp add: move_rotors_stepped Let_def stepped_rolling)

lemma move_rotors_acc_t:
  "acc_t (move_rotors s) =
     (if acc_t s \<noteq> 0 then acc_t s - 1 else if 0 <s acc s then acc s - 1 else 0)"
  by (simp add: move_rotors_stepped Let_def)

lemma sint_decrement:
  assumes "sint (a :: 16 word) \<noteq> - 32768"
  shows "sint (a - 1) = sint a - 1"
proof -
  have lo: "- 32768 \<le> sint a" using sint_ge [of a] by simp
  have hi: "sint a < 32768" using sint_lt [of a] by simp
  have "sint (a - 1) = signed_take_bit 15 (sint a - sint (1 :: 16 word))"
    by (simp add: sint_word_ariths)
  also have "\<dots> = signed_take_bit 15 (sint a - 1)" by simp
  also have "\<dots> = sint a - 1"
  proof (rule signed_take_bit_int_eq_self)
    show "- (2 ^ 15) \<le> sint a - 1" using lo assms by simp
    show "sint a - 1 < 2 ^ 15" using hi by simp
  qed
  finally show ?thesis .
qed

lemma clock_ok_setup_state: "clock_ok setup_state"
  by (simp add: clock_ok_def setup_state_def word_sle_eq)

lemma clock_ok_move_rotors:
  assumes "clock_ok s"
  shows "clock_ok (move_rotors s)"
proof -
  from assms have r: "0 \<le> sint (acc_t s)" "sint (acc_t s) \<le> 14" "0 \<le> sint (acc s)"
    "sint (acc s) \<le> 15"
    by (simp_all add: clock_ok_def word_sle_eq)
  have nz: "acc_t s \<noteq> 0 \<Longrightarrow> sint (acc_t s) \<noteq> 0"
    by (simp add: signed_eq_0_iff)
  have dt: "acc_t s \<noteq> 0 \<Longrightarrow> sint (acc_t s - 1) = sint (acc_t s) - 1"
    using r by (intro sint_decrement) simp
  have da: "0 <s acc s \<Longrightarrow> sint (acc s - 1) = sint (acc s) - 1"
    using r by (intro sint_decrement) simp
  have pos: "0 <s acc s \<longleftrightarrow> 0 < sint (acc s)" by (simp add: word_sless_alt)
  show ?thesis
    using r nz dt da pos
    by (auto simp: move_rotors_stepped Let_def clock_ok_def word_sle_eq)
qed

lemma clock_ok_write_message [simp]: "clock_ok (write_message m s) = clock_ok s"
  by (simp add: clock_ok_def write_message_def Let_def)

lemma move_rotors_noload:
  assumes "wf_state s" "\<not> loads s"
  shows "steps (move_rotors s) = steps (stepped s)"
    and "message (move_rotors s) = message s"
    and "last_display (move_rotors s) = last_display s"
  using assms by (auto simp: move_rotors_stepped Let_def stepped_rolling loads_def)

lemma move_rotors_load:
  assumes "wf_state s" "loads s"
  shows "move_rotors s = load_units 0 0 (preload s)"
  using assms by (simp add: move_rotors_stepped Let_def stepped_rolling loads_def preload_def)

lemma preload_fields [simp]:
  "message (preload s) = message s" "last_display (preload s) = last_display s"
  "wf_state (preload s) = wf_state s"
  by (simp_all add: preload_def)

lemma msg_len_preload [simp]: "msg_len p (preload s) = msg_len p s"
  by (simp add: msg_len_def)

lemma loads_msg_len:
  assumes "wf_state s" "loads s"
  shows "0 < msg_len 0 s"
proof -
  from assms have "message s \<noteq> []" "message s ! 0 \<noteq> 0"
    by (auto simp: wf_state_def loads_def)
  then show ?thesis by (cases "message s") (simp_all add: msg_len_def)
qed

lemma load_message_nth:
  assumes "wf_state s" "loads s"
  shows "message (move_rotors s) ! j =
           (if j < min (msg_len 0 s) NUM_UNITS then 0 else message s ! j)"
  using load_units_message [of "preload s" 0 0 j] assms
  by (simp add: move_rotors_load)

lemma load_last_display_nth:
  assumes "wf_state s" "loads s" "i < NUM_UNITS"
  shows "last_display (move_rotors s) ! i = target_of s i"
  using load_units_last_display [of "preload s" 0 0 i] assms
  by (simp add: move_rotors_load target_of_def)

lemma load_steps_nth:
  assumes "wf_state s" "loads s" "i < NUM_UNITS"
  shows "steps (move_rotors s) ! i = step_plan (target_of s i) (last_display s ! i)"
  using load_units_steps [of "preload s" 0 0 i] load_last_display_nth [OF assms] assms
  by (simp add: move_rotors_load)

section \<open>Runs of ticks\<close>

lemma wf_setup_state: "wf_state setup_state"
  by (simp add: wf_state_def setup_state_def)

lemma one_hot_setup_state: "one_hot_rotors setup_state"
  by (simp add: one_hot_rotors_def setup_state_def one_hot_byte_def one_hot_nibble_def)

lemma ticks_wf [simp]: "wf_state (ticks n s) = wf_state s"
  by (induction n arbitrary: s) simp_all

lemma ticks_one_hot: "one_hot_rotors s \<Longrightarrow> one_hot_rotors (ticks n s)"
  by (induction n arbitrary: s) (simp_all add: move_rotors_one_hot)

lemma clock_ok_ticks: "clock_ok s \<Longrightarrow> clock_ok (ticks n s)"
  by (induction n arbitrary: s) (simp_all add: clock_ok_move_rotors)

lemma write_message_rotors [simp]: "rotors (write_message m s) = rotors s"
  by (simp add: write_message_def Let_def)


lemma ticks_Suc_right: "ticks (Suc n) s = move_rotors (ticks n s)"
  by (induction n arbitrary: s) simp_all

lemma parked_unit0_reached:
  "ticks 170 (write_message [0x20, 0x42, 0] (ticks 51 setup_state)) = parked_unit0"
  by code_simp

lemma last_step_reached:
  "ticks 246 (write_message [0x42, 0] (ticks 51 setup_state)) = last_step"
  by code_simp

lemma idle_hello_loads: "wf_state idle_hello \<and> loads idle_hello"
  by code_simp

lemma unit1_last_step_reached:
  "ticks 246 (write_message [0x20, 0x42, 0] (ticks 51 setup_state)) = unit1_last_step"
  by code_simp

lemma no_load_Suc_right: "no_load (Suc n) s \<longleftrightarrow> no_load n s \<and> \<not> loads (ticks n s)"
  by (induction n arbitrary: s) auto

lemma no_load_empty:
  "wf_state s \<Longrightarrow> message s ! 0 = 0 \<Longrightarrow> no_load n s"
proof (induction n arbitrary: s)
  case 0
  show ?case by simp
next
  case (Suc n)
  have nl: "\<not> loads s" using Suc.prems(2) by (simp add: loads_def)
  have "message (move_rotors s) ! 0 = 0"
    using Suc.prems(2) by (simp add: move_rotors_noload(2) [OF Suc.prems(1) nl])
  with Suc.IH [of "move_rotors s"] Suc.prems(1) nl show ?case by simp
qed

lemma hold_tick:
  assumes "wf_state s" "u < NUM_UNITS" "steps s ! u = - int j" "\<not> loads s"
  shows "steps (move_rotors s) ! u = - int (if acc_t s = 0 \<and> j < 50 then j + 1 else j)"
  using assms(3) stepped_steps [OF assms(1,2)]
  by (simp add: move_rotors_noload(1) [OF assms(1,4)])

lemma hold_active:
  assumes "wf_state s" "u < NUM_UNITS" "steps s ! u = - int j" "j < 50"
  shows "\<not> loads s"
proof -
  have "- BRAKE_STEPS < steps s ! u" using assms(3,4) by simp
  then have "any_active s" using any_active_nth [OF assms(1)] assms(2) by auto
  then show ?thesis by (simp add: loads_def)
qed

lemma no_load_hold:
  assumes "u < NUM_UNITS"
  shows "wf_state s \<Longrightarrow> steps s ! u = - int j \<Longrightarrow> j + stepping_ticks n s \<le> 50 \<Longrightarrow>
         no_load n s"
proof (induction n arbitrary: s j)
  case 0
  show ?case by simp
next
  case (Suc n)
  let ?j' = "if acc_t s = 0 \<and> j < 50 then j + 1 else j"
  have nl: "\<not> loads s"
  proof (cases "acc_t s = 0")
    case True
    with Suc.prems(3) have "j < 50" by simp
    then show ?thesis by (rule hold_active [OF Suc.prems(1) assms Suc.prems(2)])
  next
    case False
    then show ?thesis by (simp add: loads_def)
  qed
  have st: "steps (move_rotors s) ! u = - int ?j'"
    by (rule hold_tick [OF Suc.prems(1) assms Suc.prems(2) nl])
  have b: "?j' + stepping_ticks n (move_rotors s) \<le> 50"
    using Suc.prems(3) by (auto split: if_splits)
  have "wf_state (move_rotors s)" using Suc.prems(1) by simp
  from Suc.IH [OF this st b] nl show ?case by simp
qed

lemma hold_count:
  assumes "u < NUM_UNITS"
  shows "wf_state s \<Longrightarrow> one_hot_rotors s \<Longrightarrow> steps s ! u = - int j \<Longrightarrow> j \<le> 50 \<Longrightarrow>
         no_load n s \<Longrightarrow>
         steps (ticks n s) ! u = - int (min (j + stepping_ticks n s) 50)
         \<and> phase_of u (rotors (ticks n s)) = phase_of u (rotors s)"
proof (induction n arbitrary: s j)
  case 0
  then show ?case by simp
next
  case (Suc n)
  let ?s' = "move_rotors s"
  let ?j' = "if acc_t s = 0 \<and> j < 50 then j + 1 else j"
  from Suc.prems(5) have nl: "\<not> loads s" and nl': "no_load n ?s'" by simp_all
  have st: "steps ?s' ! u = - int ?j'"
    by (rule hold_tick [OF Suc.prems(1) assms Suc.prems(3) nl])
  have ph: "phase_of u (rotors ?s') = phase_of u (rotors s)"
    using Suc.prems(3) stepped_phase [OF Suc.prems(1,2) assms] by simp
  have wf': "wf_state ?s'" using Suc.prems(1) by simp
  have oh': "one_hot_rotors ?s'" by (rule move_rotors_one_hot [OF Suc.prems(2)])
  have j': "?j' \<le> 50" using Suc.prems(4) by simp
  have m: "min (?j' + stepping_ticks n ?s') 50 = min (j + stepping_ticks (Suc n) s) 50"
    using Suc.prems(4) by auto
  from Suc.IH [OF wf' oh' st j' nl'] show ?case
    by (simp only: ticks.simps m ph)
qed

section \<open>The claims\<close>

subsection \<open>C1: the step plan\<close>

text \<open>
  Claim C1. For current and target flap indices \<open>c\<close> and \<open>t\<close> below 32, the step
  count that a load stores is not negative; the count of line 191, which is the plan
  under a compensation ratio of 1, is \<open>((t - c + 32) mod 32) * GEAR_RATIO\<close>; and the
  count stored is that value times 319, divided by 320 with the quotient truncated.
\<close>

theorem step_plan_forward_distance:
  assumes "c < 32" and "t < 32"
  shows "0 \<le> step_plan t c
       \<and> compensate 1 1 (raw_step_count t c) = ((sint t - sint c + 32) mod 32) * GEAR_RATIO
       \<and> step_plan t c = ((sint t - sint c + 32) mod 32) * GEAR_RATIO * 319 div 320"
proof -
  from assms have r: "0 \<le> sint c" "sint c < 32" "0 \<le> sint t" "sint t < 32"
    using small_char_sint by blast+
  then have "0 \<le> sint t - sint c + 32" by simp
  then have raw: "raw_step_count t c = ((sint t - sint c + 32) mod 32) * 64"
    by (simp add: raw_step_count_def smod_nonneg)
  then have nn: "0 \<le> raw_step_count t c * 319" by simp
  have plan: "step_plan t c = raw_step_count t c * 319 div 320"
    using nn by (simp add: step_plan_def compensate_def sdiv_nonneg)
  have "0 \<le> step_plan t c"
    using nn by (simp add: plan)
  with raw plan show ?thesis by (simp add: compensate_def)
qed

theorem step_plan_forward_distance_witness:
  "(31 :: 8 word) < 32 \<and> (7 :: 8 word) < 32 \<and> 0 \<le> step_plan 7 31
     \<and> compensate 1 1 (raw_step_count 7 31) = 512 \<and> step_plan 7 31 = 510"
  using step_plan_forward_distance [of 31 7] by simp

subsection \<open>C2: the rolling flag\<close>

text \<open>
  The flag is worked out from the counters as they are before the loop decrements
  them. Fifty ticks after power-on every unit has just reached \<open>- BRAKE_STEPS\<close>, so
  no unit is above it, and the flag is set.
\<close>

theorem rolling_flag_counterexample:
  "rolling (ticks 50 setup_state) \<and> \<not> any_active (ticks 50 setup_state)
     \<and> steps (ticks 50 setup_state) = replicate NUM_UNITS (- BRAKE_STEPS)"
  by code_simp

text \<open>
  Claim C2, as amended. At the end of every tick the rolling flag is set if and only
  if a pacing delay was pending on entry (\<open>acc_t\<close> nonzero) or some unit had its step
  counter above \<open>- BRAKE_STEPS\<close> on entry. Hence, at the end of a tick that loaded no
  message, a unit above \<open>- BRAKE_STEPS\<close> implies that the flag is set.
\<close>

theorem rolling_flag_after_tick:
  assumes "wf_state s"
  shows "(rolling (move_rotors s) \<longleftrightarrow> acc_t s \<noteq> 0 \<or> any_active s)
       \<and> (\<not> loads s \<and> any_active (move_rotors s) \<longrightarrow> rolling (move_rotors s))"
proof -
  have a: "rolling (move_rotors s) \<longleftrightarrow> acc_t s \<noteq> 0 \<or> any_active s"
    by (rule move_rotors_rolling [OF assms])
  have "any_active s" if nl: "\<not> loads s" and act: "any_active (move_rotors s)"
  proof -
    have "wf_state (move_rotors s)" using assms by simp
    from any_active_nth [OF this] act obtain i
      where i: "i < NUM_UNITS" "- BRAKE_STEPS < steps (move_rotors s) ! i" by blast
    have "steps (move_rotors s) ! i \<le> steps s ! i"
      using stepped_steps_le [OF assms i(1)] by (simp add: move_rotors_noload(1) [OF assms nl])
    with i have "- BRAKE_STEPS < steps s ! i" by simp
    with i(1) show ?thesis using any_active_nth [OF assms] by blast
  qed
  with a show ?thesis by blast
qed

theorem rolling_flag_after_tick_witness:
  "wf_state setup_state
     \<and> (rolling (move_rotors setup_state) \<longleftrightarrow> acc_t setup_state \<noteq> 0 \<or> any_active setup_state)
     \<and> rolling (move_rotors setup_state) \<and> any_active setup_state \<and> \<not> loads setup_state"
proof -
  have "any_active setup_state" "\<not> loads setup_state"
    by (simp_all add: any_active_def loads_def setup_state_def)
  with rolling_flag_after_tick [OF wf_setup_state] wf_setup_state show ?thesis by simp
qed

subsection \<open>C3: characters and flaps\<close>

text \<open>
  Lines 187 to 190 have no fallback for a byte outside the codeset: the byte
  \<open>'a'\<close> (0x61) gets the flap index 32, which is neither the space flap nor below
  \<open>NUM_FLAPS\<close>.
\<close>

theorem compute_target_counterexample:
  "compute_target 0x61 = 32 \<and> sint (compute_target 0x61) = 32"
  by (simp add: compute_target_def)

text \<open>
  Claim C3, as amended. The mapping is a total function: the bytes \<open>'A'\<close> to
  \<open>'Z'\<close> get the flaps 0 to 25, the terminator and the space get the space flap 31,
  and every other byte \<open>c\<close> gets the char \<open>c - 'A'\<close>. The index lies in
  \<open>0 ..< NUM_FLAPS\<close> exactly for the terminator, the space and the bytes 0x41 to
  0x60.
\<close>

theorem compute_target_codeset:
  "(0x41 \<le> c \<and> c \<le> 0x5A \<longrightarrow> compute_target c = c - 0x41 \<and> compute_target c \<le> 25)
   \<and> (c = 0 \<or> c = 0x20 \<longrightarrow> compute_target c = 31)
   \<and> (c \<noteq> 0 \<and> c \<noteq> 0x20 \<longrightarrow> compute_target c = c - 0x41)
   \<and> (0 \<le> sint (compute_target c) \<and> sint (compute_target c) < 32
        \<longleftrightarrow> c = 0 \<or> c = 0x20 \<or> (0x41 \<le> c \<and> c \<le> 0x60))"
proof -
  have a: "0x41 \<le> c \<and> c \<le> 0x5A \<longrightarrow> compute_target c = c - 0x41 \<and> compute_target c \<le> 25"
    using letter_offset_AZ [of c] by (auto simp: compute_target_def)
  have b: "c = 0 \<or> c = 0x20 \<longrightarrow> compute_target c = 31"
    by (simp add: compute_target_def)
  have c: "c \<noteq> 0 \<and> c \<noteq> 0x20 \<longrightarrow> compute_target c = c - 0x41"
    by (simp add: compute_target_def)
  have d: "0 \<le> sint (compute_target c) \<and> sint (compute_target c) < 32
        \<longleftrightarrow> c = 0 \<or> c = 0x20 \<or> (0x41 \<le> c \<and> c \<le> 0x60)"
    unfolding char_range_sint
    by (cases "c = 0 \<or> c = 0x20") (auto simp: compute_target_def letter_offset_range)
  from a b c d show ?thesis by blast
qed

theorem compute_target_codeset_witness:
  "(0x41 :: 8 word) \<le> 0x48 \<and> (0x48 :: 8 word) \<le> 0x5A \<and> compute_target 0x48 = 7
     \<and> compute_target 0x20 = 31 \<and> compute_target 0 = 31 \<and> compute_target 0x5B = 26"
  using compute_target_codeset [of "0x48"] compute_target_codeset [of "0x20"]
    compute_target_codeset [of 0] compute_target_codeset [of "0x5B"]
  by simp

subsection \<open>C4: loading the text that is already shown\<close>




subsection \<open>C5: the brake hold\<close>

text \<open>
  \<open>rotors_out\<close> reports unit 0 only. In the tick from \<open>unit1_last_step\<close> unit 1
  takes its last step and its counter reaches 0, while unit 0 is parked: the pins are
  off at the end of that tick and at the end of the next one, the first tick of the
  brake hold of unit 1.
\<close>

theorem brake_hold_counterexample:
  "steps unit1_last_step ! 1 = 1
     \<and> steps (move_rotors unit1_last_step) ! 1 = 0
     \<and> phase_of 1 (rotors (move_rotors unit1_last_step)) = 8
     \<and> pins (move_rotors unit1_last_step) = (False, False, False, False)
     \<and> stepping_ticks 1 (move_rotors unit1_last_step) = 1
     \<and> steps (ticks 1 (move_rotors unit1_last_step)) ! 1 = - 1
     \<and> pins (ticks 1 (move_rotors unit1_last_step)) = (False, False, False, False)"
  by code_simp

text \<open>
  Claim C5, as amended. Let the step counter of unit \<open>u\<close> be 0, and let \<open>k\<close> be the
  number of ticks among the next \<open>n\<close> that are not pacing delays. None of these
  ticks loads a message if \<open>k \<le> BRAKE_STEPS\<close> or if no message is pending. As long
  as none of them loads a message, the counter is \<open>- min k BRAKE_STEPS\<close> and the
  phase nibble of the unit is unchanged; and for unit 0, the one unit that
  \<open>rotors_out\<close> drives, the pins at the end of the \<open>n\<close>-th tick are energized,
  showing that phase, if and only if \<open>k < BRAKE_STEPS\<close> (for \<open>n = 0\<close>, if the
  pins show the phase to begin with). So the pins stay energized until the
  \<open>BRAKE_STEPS\<close>-th further tick that is not a pacing delay, which switches them
  off, and stay off until a new cycle is loaded.
\<close>

theorem brake_hold:
  assumes "wf_state s" and "one_hot_rotors s" and "u < NUM_UNITS" and "steps s ! u = 0"
  shows "(int (stepping_ticks n s) \<le> BRAKE_STEPS \<or> message s ! 0 = 0 \<longrightarrow> no_load n s)
       \<and> (no_load n s \<longrightarrow>
            steps (ticks n s) ! u = - min (int (stepping_ticks n s)) BRAKE_STEPS
          \<and> phase_of u (rotors (ticks n s)) = phase_of u (rotors s)
          \<and> (u = 0 \<and> (0 < n \<or> pins s = excitation (phase_of 0 (rotors s))) \<longrightarrow>
               pins (ticks n s) =
                 (if int (stepping_ticks n s) < BRAKE_STEPS
                  then excitation (phase_of 0 (rotors s))
                  else (False, False, False, False))
               \<and> (energized (pins (ticks n s)) \<longleftrightarrow> int (stepping_ticks n s) < BRAKE_STEPS)))"
proof -
  have s0: "steps s ! u = - int 0" using assms(4) by simp
  have nl: "no_load n s"
    if "int (stepping_ticks n s) \<le> BRAKE_STEPS \<or> message s ! 0 = 0"
  proof (cases "message s ! 0 = 0")
    case True
    then show ?thesis by (rule no_load_empty [OF assms(1)])
  next
    case False
    with that have "0 + stepping_ticks n s \<le> 50" by simp
    then show ?thesis by (rule no_load_hold [OF assms(3) assms(1) s0])
  qed
  have run: "steps (ticks m s) ! u = - int (min (stepping_ticks m s) 50)
         \<and> phase_of u (rotors (ticks m s)) = phase_of u (rotors s)"
    if "no_load m s" for m
    using hold_count [OF assms(3) assms(1,2) s0 _ that] by simp
  have en: "energized (excitation (phase_of u (rotors s)))"
    by (rule one_hot_energized [OF phase_one_hot [OF assms(1,2,3)]])
  have hold: "steps (ticks n s) ! u = - min (int (stepping_ticks n s)) BRAKE_STEPS
          \<and> phase_of u (rotors (ticks n s)) = phase_of u (rotors s)
          \<and> (u = 0 \<and> (0 < n \<or> pins s = excitation (phase_of 0 (rotors s))) \<longrightarrow>
               pins (ticks n s) =
                 (if int (stepping_ticks n s) < BRAKE_STEPS
                  then excitation (phase_of 0 (rotors s))
                  else (False, False, False, False))
               \<and> (energized (pins (ticks n s)) \<longleftrightarrow> int (stepping_ticks n s) < BRAKE_STEPS))"
    if noload: "no_load n s"
  proof -
    have a: "steps (ticks n s) ! u = - min (int (stepping_ticks n s)) BRAKE_STEPS"
      and b: "phase_of u (rotors (ticks n s)) = phase_of u (rotors s)"
      using run [OF noload] by (simp_all add: min_def)
    have pv: "pins (ticks n s) =
                (if int (stepping_ticks n s) < BRAKE_STEPS then excitation (phase_of 0 (rotors s))
                 else (False, False, False, False))"
      if u0: "u = 0" and c: "0 < n \<or> pins s = excitation (phase_of 0 (rotors s))"
    proof (cases n)
      case 0
      with c show ?thesis by simp
    next
      case (Suc m)
      let ?t = "ticks m s"
      have wf: "wf_state ?t" using assms(1) by simp
      have oh: "one_hot_rotors ?t" by (rule ticks_one_hot [OF assms(2)])
      have nlt: "\<not> loads ?t"
        using noload unfolding Suc no_load_Suc_right by blast
      have e: "steps (stepped ?t) = steps (ticks n s)" "rotors (stepped ?t) = rotors (ticks n s)"
        "pins (stepped ?t) = pins (ticks n s)"
        by (simp_all only: Suc ticks_Suc_right move_rotors_noload(1) [OF wf nlt]
              move_rotors_rotors move_rotors_pins)
      have "pins (ticks n s) =
             (if - BRAKE_STEPS < steps (ticks n s) ! 0
              then excitation (phase_of 0 (rotors (ticks n s)))
              else (False, False, False, False))"
        using stepped_pins [OF wf oh] by (simp only: e)
      also have "\<dots> = (if int (stepping_ticks n s) < BRAKE_STEPS
                        then excitation (phase_of 0 (rotors s))
                        else (False, False, False, False))"
        using a b u0 by (auto simp: min_def)
      finally show ?thesis .
    qed
    from a b pv en show ?thesis by auto
  qed
  from nl hold show ?thesis by blast
qed

theorem brake_hold_witness:
  "wf_state (move_rotors last_step) \<and> one_hot_rotors (move_rotors last_step)
     \<and> (0 :: nat) < NUM_UNITS \<and> steps (move_rotors last_step) ! 0 = 0
     \<and> pins (move_rotors last_step) = (True, False, False, False)
     \<and> stepping_ticks 49 (move_rotors last_step) = 49
     \<and> no_load 49 (move_rotors last_step)
     \<and> steps (ticks 49 (move_rotors last_step)) ! 0 = - 49
     \<and> pins (ticks 49 (move_rotors last_step)) = (True, False, False, False)
     \<and> stepping_ticks 50 (move_rotors last_step) = 50
     \<and> pins (ticks 50 (move_rotors last_step)) = (False, False, False, False)
     \<and> wf_state hold_pending \<and> one_hot_rotors hold_pending
     \<and> steps hold_pending ! 0 = 0 \<and> message hold_pending ! 0 = 0x48
     \<and> stepping_ticks 200 hold_pending = 81
     \<and> no_load 200 hold_pending
     \<and> steps (ticks 200 hold_pending) ! 0 = - 50
     \<and> pins (ticks 200 hold_pending) = (False, False, False, False)"
proof -
  have h: "wf_state (move_rotors last_step)" "one_hot_rotors (move_rotors last_step)"
    "(0 :: nat) < NUM_UNITS" "steps (move_rotors last_step) ! 0 = 0"
    by code_simp+
  have k: "stepping_ticks 49 (move_rotors last_step) = 49"
    "stepping_ticks 50 (move_rotors last_step) = 50"
    "pins (move_rotors last_step) = (True, False, False, False)"
    "excitation (phase_of 0 (rotors (move_rotors last_step))) = (True, False, False, False)"
    by code_simp+
  have g: "wf_state hold_pending" "one_hot_rotors hold_pending"
    "(0 :: nat) < NUM_UNITS" "steps hold_pending ! 0 = 0"
    by code_simp+
  have l: "stepping_ticks 200 hold_pending = 81" "no_load 200 hold_pending"
    "message hold_pending ! 0 = 0x48"
    by code_simp+
  from brake_hold [OF h, of 49] brake_hold [OF h, of 50] brake_hold [OF g, of 200]
    h k g l
  show ?thesis by simp
qed

subsection \<open>C6: a tick during a pacing delay\<close>

text \<open>
  Claim C6. A tick entered with a nonzero \<open>acc_t\<close> takes one off the delay counter
  (in 16-bit arithmetic; as signed numbers unless \<open>acc_t\<close> is the smallest
  \<open>int\<close>, and down to 0 at most in the states of a run), leaves every phase nibble
  and every step counter as it was, and ends with the rolling flag set.
\<close>

theorem tick_during_delay:
  assumes "acc_t s \<noteq> 0"
  shows "acc_t (move_rotors s) = acc_t s - 1
       \<and> (sint (acc_t s) \<noteq> - 32768 \<longrightarrow> sint (acc_t (move_rotors s)) = sint (acc_t s) - 1)
       \<and> (clock_ok s \<longrightarrow> 0 \<le> sint (acc_t (move_rotors s))
                          \<and> sint (acc_t (move_rotors s)) = sint (acc_t s) - 1)
       \<and> rotors (move_rotors s) = rotors s
       \<and> steps (move_rotors s) = steps s \<and> rolling (move_rotors s)
       \<and> acc (move_rotors s) = acc s \<and> message (move_rotors s) = message s
       \<and> last_display (move_rotors s) = last_display s"
proof -
  have a: "acc_t (move_rotors s) = acc_t s - 1"
    using assms by (simp add: move_rotors_def rotors_out_def rotors_out_unit_def Let_def)
  have b: "sint (acc_t s) \<noteq> - 32768 \<longrightarrow> sint (acc_t (move_rotors s)) = sint (acc_t s) - 1"
    by (simp add: a sint_decrement)
  have c: "0 \<le> sint (acc_t (move_rotors s)) \<and> sint (acc_t (move_rotors s)) = sint (acc_t s) - 1"
    if "clock_ok s"
  proof -
    from that have r: "0 \<le> sint (acc_t s)" by (simp add: clock_ok_def word_sle_eq)
    then have "sint (acc_t s) \<noteq> - 32768" by simp
    with b have d: "sint (acc_t (move_rotors s)) = sint (acc_t s) - 1" by simp
    from clock_ok_move_rotors [OF that] have "0 \<le> sint (acc_t (move_rotors s))"
      by (simp add: clock_ok_def word_sle_eq)
    with d show ?thesis by simp
  qed
  have d: "rotors (move_rotors s) = rotors s
       \<and> steps (move_rotors s) = steps s \<and> rolling (move_rotors s)
       \<and> acc (move_rotors s) = acc s \<and> message (move_rotors s) = message s
       \<and> last_display (move_rotors s) = last_display s"
    using assms by (simp add: move_rotors_def rotors_out_def rotors_out_unit_def Let_def)
  from a b c d show ?thesis by blast
qed

theorem tick_during_delay_witness:
  "acc_t (move_rotors idle_space) = 14
     \<and> acc_t (move_rotors (move_rotors idle_space)) = 13
     \<and> sint (acc_t (move_rotors (move_rotors idle_space))) = 13
     \<and> clock_ok (move_rotors idle_space)
     \<and> rotors (move_rotors (move_rotors idle_space)) = rotors (move_rotors idle_space)
     \<and> steps (move_rotors (move_rotors idle_space)) = replicate NUM_UNITS 0
     \<and> rolling (move_rotors (move_rotors idle_space))"
proof -
  have v: "acc_t (move_rotors idle_space) = 14" "clock_ok (move_rotors idle_space)"
    "steps (move_rotors idle_space) = replicate NUM_UNITS 0"
    by code_simp+
  then have nz: "acc_t (move_rotors idle_space) \<noteq> 0" by simp
  from tick_during_delay [OF nz] v show ?thesis by simp
qed

subsection \<open>C7: the output\<close>

text \<open>
  \<open>rotors_out\<close> reads unit 0 only. In \<open>parked_unit0\<close> unit 0 is parked and unit 1
  has 77 steps to go: the pins are all off, in that state and after the next tick, in
  which unit 1 steps from phase 4 to phase 8.
\<close>

theorem rotors_out_counterexample:
  "steps parked_unit0 ! 1 = 77 \<and> phase_of 1 (rotors parked_unit0) = 4
     \<and> pins (rotors_out parked_unit0) = (False, False, False, False)
     \<and> pins (move_rotors parked_unit0) = (False, False, False, False)
     \<and> steps (move_rotors parked_unit0) ! 1 = 76
     \<and> phase_of 1 (rotors (move_rotors parked_unit0)) = 8"
  by code_simp

text \<open>
  Claim C7, as amended. \<open>rotors_out\<close> drives the four pins for one unit, the one its
  local \<open>rotor_num\<close> selects, which is unit 0. For the unit selected, with one bit
  per nibble in the rotor bytes, the pins show the excitation of the unit's phase
  nibble if its step counter is above \<open>- BRAKE_STEPS\<close> and are all off otherwise; and
  they are energized if and only if the counter is above \<open>- BRAKE_STEPS\<close>.
\<close>

theorem rotors_out_selected_unit:
  assumes "wf_state s" and "one_hot_rotors s" and "rotor_num < NUM_UNITS"
  shows "rotors_out s = rotors_out_unit 0 s
       \<and> pins (rotors_out_unit rotor_num s) =
           (if - BRAKE_STEPS < steps s ! rotor_num
            then excitation (phase_of rotor_num (rotors s))
            else (False, False, False, False))
       \<and> (energized (pins (rotors_out_unit rotor_num s)) \<longleftrightarrow>
            - BRAKE_STEPS < steps s ! rotor_num)"
proof -
  have p: "pins (rotors_out_unit rotor_num s) =
           (if - BRAKE_STEPS < steps s ! rotor_num
            then excitation (phase_of rotor_num (rotors s))
            else (False, False, False, False))"
    by (rule rotors_out_unit_pins [OF assms])
  have "energized (excitation (phase_of rotor_num (rotors s)))"
    by (rule one_hot_energized [OF phase_one_hot [OF assms]])
  with p show ?thesis by (simp add: rotors_out_def)
qed

theorem rotors_out_selected_unit_witness:
  "wf_state setup_state \<and> one_hot_rotors setup_state \<and> (0 :: nat) < NUM_UNITS
     \<and> pins (rotors_out setup_state) = (False, False, False, True)
     \<and> energized (pins (rotors_out_unit 0 setup_state))
     \<and> - BRAKE_STEPS < steps setup_state ! 0"
proof -
  have "steps setup_state ! 0 = 0" "phase_of 0 (rotors setup_state) = 1"
    by (simp_all add: setup_state_def phase_of_def)
  with rotors_out_selected_unit [OF wf_setup_state one_hot_setup_state, of 0]
    wf_setup_state one_hot_setup_state
  show ?thesis by (simp add: excitation_def)
qed

subsection \<open>C8: consuming the message\<close>

text \<open>
  Claim C8. A tick that loads a pending message zeroes the first
  \<open>min (msg_len 0 s) NUM_UNITS\<close> bytes of the buffer and leaves the bytes after them
  as they are; unit \<open>i\<close> gets the flap of byte \<open>i\<close> of the message, and every unit
  from the length of the message on gets the space flap; each step counter is the step
  plan from the flap shown to the new flap.
\<close>

theorem load_consumes_message:
  assumes "wf_state s" and "loads s"
  shows "0 < msg_len 0 s
       \<and> message (move_rotors s) =
           replicate (min (msg_len 0 s) NUM_UNITS) 0 @ drop (min (msg_len 0 s) NUM_UNITS) (message s)
       \<and> (\<forall>i<NUM_UNITS. last_display (move_rotors s) ! i =
             (if i < msg_len 0 s then compute_target (message s ! i)
              else word_of_int (NUM_FLAPS - 1)))
       \<and> (\<forall>i<NUM_UNITS. steps (move_rotors s) ! i =
             step_plan (last_display (move_rotors s) ! i) (last_display s ! i))"
proof -
  define m where "m = min (msg_len 0 s) NUM_UNITS"
  have m: "m \<le> NUM_UNITS" by (simp add: m_def)
  have len: "length (message s) = NUM_UNITS + 1" using assms(1) by (simp add: wf_state_def)
  have len': "length (message (move_rotors s)) = NUM_UNITS + 1"
    using assms(1) move_rotors_wf [of s] by (simp add: wf_state_def)
  have nth: "message (move_rotors s) ! j = (if j < m then 0 else message s ! j)" for j
    unfolding m_def by (rule load_message_nth [OF assms])
  have "message (move_rotors s) = replicate m 0 @ drop m (message s)"
  proof (rule nth_equalityI)
    show "length (message (move_rotors s)) = length (replicate m 0 @ drop m (message s))"
      using len len' m by simp
  next
    fix j assume "j < length (message (move_rotors s))"
    then have j: "j < length (message s)" using len len' by simp
    show "message (move_rotors s) ! j = (replicate m 0 @ drop m (message s)) ! j"
    proof (cases "j < m")
      case True
      then show ?thesis by (simp add: nth nth_append)
    next
      case False
      then have "m + (j - m) = j" by simp
      with False j show ?thesis by (simp add: nth nth_append)
    qed
  qed
  then have "message (move_rotors s) =
      replicate (min (msg_len 0 s) NUM_UNITS) 0 @ drop (min (msg_len 0 s) NUM_UNITS) (message s)"
    by (simp only: m_def)
  moreover have "\<forall>i<NUM_UNITS. last_display (move_rotors s) ! i =
             (if i < msg_len 0 s then compute_target (message s ! i)
              else word_of_int (NUM_FLAPS - 1))"
    using load_last_display_nth [OF assms] by (simp add: target_of_def)
  moreover have "\<forall>i<NUM_UNITS. steps (move_rotors s) ! i =
             step_plan (last_display (move_rotors s) ! i) (last_display s ! i)"
    using load_last_display_nth [OF assms] load_steps_nth [OF assms] by simp
  ultimately show ?thesis using loads_msg_len [OF assms] by blast
qed

theorem load_consumes_message_witness:
  "wf_state idle_hello \<and> loads idle_hello \<and> msg_len 0 idle_hello = 6
     \<and> message idle_hello = [0x48, 0x45, 0x4C, 0x4C, 0x4F, 0x20, 0, 0, 0, 0, 0]
     \<and> message (move_rotors idle_hello) = [0, 0, 0, 0, 0, 0, 0, 0, 0, 0, 0]
     \<and> last_display (move_rotors idle_hello) ! 0 = 7
     \<and> last_display (move_rotors idle_hello) ! 5 = 31
     \<and> last_display (move_rotors idle_hello) ! 9 = 31
     \<and> steps (move_rotors idle_hello) ! 0 = 510"
proof -
  have wl: "wf_state idle_hello" "loads idle_hello"
    using idle_hello_loads by simp_all
  have v: "msg_len 0 idle_hello = 6"
    "message idle_hello = [0x48, 0x45, 0x4C, 0x4C, 0x4F, 0x20, 0, 0, 0, 0, 0]"
    "last_display idle_hello ! 0 = 31"
    by code_simp+
  have c: "compute_target 0x48 = 7" "compute_target 0x20 = 31" "step_plan 7 31 = 510"
    "replicate 6 (0 :: 8 word) = [0, 0, 0, 0, 0, 0]"
    by code_simp+
  from load_consumes_message [OF wl] wl show ?thesis
    by (simp add: v c)
qed

subsection \<open>C9: the phase of a unit\<close>

text \<open>
  Claim C9. With one bit per nibble in the rotor bytes, a tick advances the phase of a
  unit once if no delay is pending and the unit's step counter is positive, and leaves
  it otherwise; \<open>step_fwd\<close> is that advance; the phase and its next three successors
  are four different values, and the fourth advance gives the first phase again, for
  the nibble and for the whole rotor array.
\<close>

theorem phase_advance:
  assumes "wf_state s" and "one_hot_rotors s" and "u < NUM_UNITS"
  shows "phase_of u (rotors (move_rotors s)) =
           (if acc_t s = 0 \<and> 0 < steps s ! u then next_phase (phase_of u (rotors s))
            else phase_of u (rotors s))
       \<and> phase_of u (rotors (step_fwd u s)) = next_phase (phase_of u (rotors s))
       \<and> distinct [phase_of u (rotors s), next_phase (phase_of u (rotors s)),
                   next_phase (next_phase (phase_of u (rotors s))),
                   next_phase (next_phase (next_phase (phase_of u (rotors s))))]
       \<and> next_phase (next_phase (next_phase (next_phase (phase_of u (rotors s)))))
           = phase_of u (rotors s)
       \<and> rotors (step_fwd u (step_fwd u (step_fwd u (step_fwd u s)))) = rotors s"
proof -
  have a: "phase_of u (rotors (move_rotors s)) =
           (if acc_t s = 0 \<and> 0 < steps s ! u then next_phase (phase_of u (rotors s))
            else phase_of u (rotors s))"
    using stepped_phase [OF assms] by simp
  have b: "phase_of u (rotors (step_fwd u s)) = next_phase (phase_of u (rotors s))"
    using step_fwd_phase [OF assms(1,2,3) assms(3)] by simp
  note c = next_phase_distinct [OF phase_one_hot [OF assms]]
  note d = step_fwd_four [OF assms]
  from a b c d show ?thesis by blast
qed

theorem phase_advance_witness:
  "wf_state setup_state \<and> one_hot_rotors setup_state \<and> (3 :: nat) < NUM_UNITS
     \<and> phase_of 3 (rotors setup_state) = 1
     \<and> phase_of 3 (rotors (step_fwd 3 setup_state)) = 2
     \<and> phase_of 3 (rotors (move_rotors setup_state)) = 1
     \<and> rotors (step_fwd 3 (step_fwd 3 (step_fwd 3 (step_fwd 3 setup_state)))) = rotors setup_state"
proof -
  have "phase_of 3 (rotors setup_state) = 1" "steps setup_state ! 3 = 0"
    by (simp_all add: setup_state_def phase_of_def)
  with phase_advance [OF wf_setup_state one_hot_setup_state, of 3]
    wf_setup_state one_hot_setup_state
  show ?thesis by (simp add: next_phase_def)
qed

subsection \<open>C10: one bit per nibble\<close>

text \<open>
  Claim C10. After \<open>setup\<close> every nibble of the rotor array is one of 1, 2, 4, 8.
  \<open>step_fwd\<close> on a unit of the display keeps this, for the nibble it advances and
  for all the others, and so do \<open>rotors_out\<close>, a tick, a write to the message
  buffer and any number of ticks; so it holds after any number of ticks from
  \<open>setup\<close>.
\<close>

theorem one_hot_invariant:
  "one_hot_rotors setup_state
   \<and> (wf_state s \<and> one_hot_rotors s \<and> rotor_num < NUM_UNITS \<longrightarrow>
        one_hot_rotors (step_fwd rotor_num s)
        \<and> one_hot_nibble (phase_of rotor_num (rotors s))
        \<and> one_hot_nibble (phase_of rotor_num (rotors (step_fwd rotor_num s))))
   \<and> (one_hot_rotors s \<longrightarrow>
        one_hot_rotors (rotors_out s) \<and> one_hot_rotors (move_rotors s)
        \<and> one_hot_rotors (write_message m s) \<and> one_hot_rotors (ticks n s))
   \<and> one_hot_rotors (ticks n setup_state)"
proof -
  have a: "one_hot_rotors (step_fwd rotor_num s)
        \<and> one_hot_nibble (phase_of rotor_num (rotors s))
        \<and> one_hot_nibble (phase_of rotor_num (rotors (step_fwd rotor_num s)))"
    if h: "wf_state s" "one_hot_rotors s" "rotor_num < NUM_UNITS"
  proof -
    have oh: "one_hot_rotors (step_fwd rotor_num s)" by (rule step_fwd_one_hot [OF h(2)])
    have wf: "wf_state (step_fwd rotor_num s)" using h(1) by simp
    from oh phase_one_hot [OF h] phase_one_hot [OF wf oh h(3)] show ?thesis by blast
  qed
  have b: "one_hot_rotors (rotors_out s) \<and> one_hot_rotors (move_rotors s)
        \<and> one_hot_rotors (write_message m s) \<and> one_hot_rotors (ticks n s)"
    if h: "one_hot_rotors s"
    using h move_rotors_one_hot [OF h] ticks_one_hot [OF h, of n]
    by (simp add: one_hot_rotors_def)
  from a b one_hot_setup_state ticks_one_hot [OF one_hot_setup_state, of n]
  show ?thesis by blast
qed

theorem one_hot_invariant_witness:
  "wf_state setup_state \<and> one_hot_rotors setup_state \<and> (4 :: nat) < NUM_UNITS
     \<and> one_hot_rotors (step_fwd 4 setup_state)
     \<and> rotors (step_fwd 4 setup_state) = [0x11, 0x11, 0x21, 0x11, 0x11]
     \<and> one_hot_rotors (move_rotors setup_state)
     \<and> one_hot_rotors (ticks 7 setup_state)"
proof -
  have "rotors (step_fwd 4 setup_state) = [0x11, 0x11, 0x21, 0x11, 0x11]"
    by code_simp
  with one_hot_invariant [of setup_state 4 "[]" 7] wf_setup_state one_hot_setup_state
  show ?thesis by simp
qed

end
